theory Spec2Isabelle
  imports Main
begin

section \<open>Go strings, runes and UTF-8\<close>

text \<open>
  A Go \<^verbatim>\<open>string\<close> is a sequence of bytes; it is modelled as a \<^typ>\<open>char list\<close>
  (an Isabelle \<^typ>\<open>char\<close> is one byte, \<open>of_char\<close> reads its value).  A \<^verbatim>\<open>rune\<close> is a
  signed 32-bit integer holding a code point; no arithmetic of this program can overflow
  it, so it is an \<^typ>\<open>int\<close>.
\<close>

type_synonym rune = int

definition RuneError :: rune where
  "RuneError = 0xFFFD"

definition RuneSelf :: int where
  "RuneSelf = 0x80"

definition MaxRune :: rune where
  "MaxRune = 0x10FFFF"

definition MaxASCII :: rune where
  "MaxASCII = 0x7F"

definition MaxLatin1 :: rune where
  "MaxLatin1 = 0xFF"

text \<open>
  \<^verbatim>\<open>utf8.DecodeRuneInString\<close>: the first rune of the string and its width in bytes.
  An empty string gives \<open>(RuneError, 0)\<close>, an invalid or truncated encoding
  \<open>(RuneError, 1)\<close>.  The library masks and shifts the payload bits of each byte
  (\<^verbatim>\<open>rune(s0&mask2)<<6 | rune(s1&maskx)\<close>); the bit fields are disjoint, so the same
  number is written here with \<open>mod\<close>, \<open>*\<close> and \<open>+\<close>.  The lower and upper bound of
  the second byte are the library's \<^verbatim>\<open>acceptRanges\<close> entry of the first byte.
\<close>

fun DecodeRuneInString :: "string \<Rightarrow> rune \<times> nat" where
  "DecodeRuneInString [] = (RuneError, 0)"
| "DecodeRuneInString (c0 # cs) =
    (let s0 = (of_char c0 :: int) in
     if s0 < RuneSelf then (s0, 1)
     else if s0 < 0xC2 \<or> 0xF4 < s0 then (RuneError, 1)
     else
       let sz = (if s0 < 0xE0 then 2 else if s0 < 0xF0 then 3 else 4 :: nat);
           lo = (if s0 = 0xE0 then 0xA0 else if s0 = 0xF0 then 0x90 else 0x80 :: int);
           hi = (if s0 = 0xED then 0x9F else if s0 = 0xF4 then 0x8F else 0xBF :: int)
       in
         if length (c0 # cs) < sz then (RuneError, 1)
         else
           let s1 = (of_char (cs ! 0) :: int) in
           if s1 < lo \<or> hi < s1 then (RuneError, 1)
           else if sz \<le> 2 then ((s0 mod 32) * 64 + s1 mod 64, 2)
           else
             let s2 = (of_char (cs ! 1) :: int) in
             if s2 < 0x80 \<or> 0xBF < s2 then (RuneError, 1)
             else if sz \<le> 3 then ((s0 mod 16) * 4096 + (s1 mod 64) * 64 + s2 mod 64, 3)
             else
               let s3 = (of_char (cs ! 2) :: int) in
               if s3 < 0x80 \<or> 0xBF < s3 then (RuneError, 1)
               else ((s0 mod 8) * 262144 + (s1 mod 64) * 4096 + (s2 mod 64) * 64
                       + s3 mod 64, 4))"

lemma DecodeRuneInString_width:
  "s \<noteq> [] \<Longrightarrow> 1 \<le> snd (DecodeRuneInString s) \<and> snd (DecodeRuneInString s) \<le> length s"
  by (cases s) (auto simp: Let_def Suc_le_eq not_less split: if_splits)

text \<open>
  \<^verbatim>\<open>for i, r := range s\<close>: the pairs (byte index, rune) the loop sees, in order.  An
  invalid byte is seen as \<open>RuneError\<close> and the loop advances by one byte.
\<close>

function rangeFrom :: "nat \<Rightarrow> string \<Rightarrow> (nat \<times> rune) list" where
  "rangeFrom i s =
    (if s = [] then []
     else (i, fst (DecodeRuneInString s))
            # rangeFrom (i + snd (DecodeRuneInString s)) (drop (snd (DecodeRuneInString s)) s))"
  by pat_completeness auto
termination
proof (relation "measure (\<lambda>(i, s). length s)")
  show "wf (measure (\<lambda>(i, s). length s))" by simp
next
  fix i :: nat and s :: string
  assume "s \<noteq> []"
  then have "1 \<le> snd (DecodeRuneInString s)"
    using DecodeRuneInString_width by blast
  with \<open>s \<noteq> []\<close>
  show "((i + snd (DecodeRuneInString s), drop (snd (DecodeRuneInString s)) s), (i, s))
          \<in> measure (\<lambda>(i, s). length s)"
    by (cases s) auto
qed

declare rangeFrom.simps [simp del]

definition rangeString :: "string \<Rightarrow> (nat \<times> rune) list" where
  "rangeString s = rangeFrom 0 s"

text \<open>The conversion \<^verbatim>\<open>[]rune(s)\<close>.\<close>

definition runes :: "string \<Rightarrow> rune list" where
  "runes s = map snd (rangeString s)"

text \<open>
  \<^verbatim>\<open>utf8.AppendRune\<close>, which \<^verbatim>\<open>strings.Builder.WriteRune\<close> and the conversion
  \<^verbatim>\<open>string(runes)\<close> use: a rune out of range or in the surrogate range is written as
  the three bytes of \<open>RuneError\<close>.
\<close>

definition encode3 :: "rune \<Rightarrow> string" where
  "encode3 r = [char_of (0xE0 + r div 4096), char_of (0x80 + (r div 64) mod 64),
                char_of (0x80 + r mod 64)]"

definition AppendRune :: "rune \<Rightarrow> string" where
  "AppendRune r =
    (if 0 \<le> r \<and> r \<le> 0x7F then [char_of r]
     else if 0 \<le> r \<and> r \<le> 0x7FF then [char_of (0xC0 + r div 64), char_of (0x80 + r mod 64)]
     else if r < 0 \<or> MaxRune < r \<or> (0xD800 \<le> r \<and> r \<le> 0xDFFF) then encode3 RuneError
     else if r \<le> 0xFFFF then encode3 r
     else [char_of (0xF0 + r div 262144), char_of (0x80 + (r div 4096) mod 64),
           char_of (0x80 + (r div 64) mod 64), char_of (0x80 + r mod 64)])"

definition string_of_runes :: "rune list \<Rightarrow> string" where
  "string_of_runes rs = concat (map AppendRune rs)"

text \<open>
  \<^verbatim>\<open>utf8.ValidString\<close>: the string consists of valid encodings only, that is, the range
  loop never meets a byte it has to report as \<open>RuneError\<close> of width one.
\<close>

function ValidString :: "string \<Rightarrow> bool" where
  "ValidString s =
    (if s = [] then True
     else DecodeRuneInString s \<noteq> (RuneError, 1)
          \<and> ValidString (drop (snd (DecodeRuneInString s)) s))"
  by pat_completeness auto
termination
proof (relation "measure length")
  show "wf (measure length)" by simp
next
  fix s :: string
  assume "s \<noteq> []"
  then have "1 \<le> snd (DecodeRuneInString s)"
    using DecodeRuneInString_width by blast
  with \<open>s \<noteq> []\<close> show "(drop (snd (DecodeRuneInString s)) s, s) \<in> measure length"
    by (cases s) auto
qed

declare ValidString.simps [simp del]

section \<open>The Unicode tables\<close>

text \<open>
  Package \<^verbatim>\<open>unicode\<close> answers every query on a rune up to \<open>MaxLatin1\<close> from its
  \<^verbatim>\<open>properties\<close> array, and every case mapping of an ASCII rune by arithmetic; both are
  written out below.  Beyond that it searches the range tables of the Unicode version
  the program was built with.  Those tables are not part of the program, so they are a
  parameter: a record holding, for each table the program consults, its membership
  predicate, and for \<^verbatim>\<open>CaseRanges\<close> the three mappings \<^verbatim>\<open>unicode.To\<close> computes from it.
  \<open>SimpleFoldOrbit U a b\<close> says that \<open>b\<close> is reached from \<open>a\<close> by iterating
  \<^verbatim>\<open>unicode.SimpleFold\<close>; it is consulted for pairs that are not both ASCII.
\<close>

record tables =
  Letter :: "rune \<Rightarrow> bool"
  Number :: "rune \<Rightarrow> bool"
  Digit :: "rune \<Rightarrow> bool"
  Upper :: "rune \<Rightarrow> bool"
  Lower :: "rune \<Rightarrow> bool"
  White_Space :: "rune \<Rightarrow> bool"
  To_UpperCase :: "rune \<Rightarrow> rune"
  To_LowerCase :: "rune \<Rightarrow> rune"
  To_TitleCase :: "rune \<Rightarrow> rune"
  SimpleFoldOrbit :: "rune \<Rightarrow> rune \<Rightarrow> bool"

text \<open>The general category bits of the \<^verbatim>\<open>properties\<close> array (\<open>pLo\<close> is \<open>pLl | pLu\<close>).\<close>

datatype property = pC | pP | pN | pS | pZ | pLu | pLl | pLo | pNone

definition properties :: "rune \<Rightarrow> property" where
  "properties r =
    (if r \<le> 0x1F then pC
     else if r = 0x20 then pZ
     else if r \<in> {0x24, 0x2B, 0x3C, 0x3D, 0x3E, 0x5E, 0x60, 0x7C, 0x7E} then pS
     else if r \<le> 0x2F then pP
     else if r \<le> 0x39 then pN
     else if r \<le> 0x40 then pP
     else if r \<le> 0x5A then pLu
     else if r \<le> 0x60 then pP
     else if r \<le> 0x7A then pLl
     else if r \<le> 0x7E then pP
     else if r \<le> 0x9F then pC
     else if r = 0xA0 then pZ
     else if r \<in> {0xA1, 0xA7, 0xAB, 0xB6, 0xB7, 0xBB, 0xBF} then pP
     else if r \<in> {0xAA, 0xBA} then pLo
     else if r = 0xAD then pNone
     else if r \<in> {0xB2, 0xB3, 0xB9, 0xBC, 0xBD, 0xBE} then pN
     else if r = 0xB5 then pLl
     else if r \<le> 0xBF then pS
     else if r = 0xD7 \<or> r = 0xF7 then pS
     else if r \<le> 0xDE then pLu
     else pLl)"

definition IsLetter :: "tables \<Rightarrow> rune \<Rightarrow> bool" where
  "IsLetter U r =
    (if 0 \<le> r \<and> r \<le> MaxLatin1 then properties r \<in> {pLu, pLl, pLo} else Letter U r)"

definition IsNumber :: "tables \<Rightarrow> rune \<Rightarrow> bool" where
  "IsNumber U r =
    (if 0 \<le> r \<and> r \<le> MaxLatin1 then properties r = pN else Number U r)"

definition IsDigit :: "tables \<Rightarrow> rune \<Rightarrow> bool" where
  "IsDigit U r =
    (if 0 \<le> r \<and> r \<le> MaxLatin1 then 0x30 \<le> r \<and> r \<le> 0x39 else Digit U r)"

definition IsUpper :: "tables \<Rightarrow> rune \<Rightarrow> bool" where
  "IsUpper U r =
    (if 0 \<le> r \<and> r \<le> MaxLatin1 then properties r = pLu else Upper U r)"

definition IsLower :: "tables \<Rightarrow> rune \<Rightarrow> bool" where
  "IsLower U r =
    (if 0 \<le> r \<and> r \<le> MaxLatin1 then properties r = pLl else Lower U r)"

definition IsSpace :: "tables \<Rightarrow> rune \<Rightarrow> bool" where
  "IsSpace U r =
    (if 0 \<le> r \<and> r \<le> MaxLatin1 then r \<in> {0x09, 0x0A, 0x0B, 0x0C, 0x0D, 0x20, 0x85, 0xA0}
     else White_Space U r)"

definition unicode_ToUpper :: "tables \<Rightarrow> rune \<Rightarrow> rune" where
  "unicode_ToUpper U r =
    (if r \<le> MaxASCII then (if 0x61 \<le> r \<and> r \<le> 0x7A then r - 0x20 else r)
     else To_UpperCase U r)"

definition unicode_ToLower :: "tables \<Rightarrow> rune \<Rightarrow> rune" where
  "unicode_ToLower U r =
    (if r \<le> MaxASCII then (if 0x41 \<le> r \<and> r \<le> 0x5A then r + 0x20 else r)
     else To_LowerCase U r)"

definition unicode_ToTitle :: "tables \<Rightarrow> rune \<Rightarrow> rune" where
  "unicode_ToTitle U r =
    (if r \<le> MaxASCII then (if 0x61 \<le> r \<and> r \<le> 0x7A then r - 0x20 else r)
     else To_TitleCase U r)"

section \<open>Package strings\<close>

text \<open>
  \<^verbatim>\<open>strings.Map\<close>: every rune of the string (an invalid byte is the rune \<open>RuneError\<close>)
  is replaced by its image, written in UTF-8; a negative image drops the rune.
\<close>

definition strings_Map :: "(rune \<Rightarrow> rune) \<Rightarrow> string \<Rightarrow> string" where
  "strings_Map mapping s =
     concat (map (\<lambda>c. if 0 \<le> mapping c then AppendRune (mapping c) else []) (runes s))"

definition isASCII :: "string \<Rightarrow> bool" where
  "isASCII s = list_all (\<lambda>c. (of_char c :: int) < RuneSelf) s"

text \<open>
  \<^verbatim>\<open>strings.ToLower\<close> and \<^verbatim>\<open>strings.ToUpper\<close>: a string of ASCII bytes is mapped byte by
  byte, any other string goes through \<open>strings_Map\<close>.
\<close>

definition strings_ToLower :: "tables \<Rightarrow> string \<Rightarrow> string" where
  "strings_ToLower U s =
    (if isASCII s
     then map (\<lambda>c. if 0x41 \<le> (of_char c :: int) \<and> (of_char c :: int) \<le> 0x5A
                    then char_of ((of_char c :: int) + 0x20) else c) s
     else strings_Map (unicode_ToLower U) s)"

definition strings_ToUpper :: "tables \<Rightarrow> string \<Rightarrow> string" where
  "strings_ToUpper U s =
    (if isASCII s
     then map (\<lambda>c. if 0x61 \<le> (of_char c :: int) \<and> (of_char c :: int) \<le> 0x7A
                    then char_of ((of_char c :: int) - 0x20) else c) s
     else strings_Map (unicode_ToUpper U) s)"

text \<open>
  \<^verbatim>\<open>strings.Title\<close> maps with a closure that remembers the previous rune (initially a
  space): a rune that follows a separator is mapped to its title case, every other rune
  is left as it is.  \<^verbatim>\<open>isSeparator\<close> is the library's test.
\<close>

definition isSeparator :: "tables \<Rightarrow> rune \<Rightarrow> bool" where
  "isSeparator U r =
    (if r \<le> 0x7F then
       \<not> ((0x30 \<le> r \<and> r \<le> 0x39) \<or> (0x61 \<le> r \<and> r \<le> 0x7A) \<or> (0x41 \<le> r \<and> r \<le> 0x5A)
            \<or> r = 0x5F)
     else if IsLetter U r \<or> IsDigit U r then False
     else IsSpace U r)"

fun Title_runes :: "tables \<Rightarrow> rune \<Rightarrow> rune list \<Rightarrow> rune list" where
  "Title_runes U prev [] = []"
| "Title_runes U prev (r # rs) =
     (if isSeparator U prev then unicode_ToTitle U r else r) # Title_runes U r rs"

definition strings_Title :: "tables \<Rightarrow> string \<Rightarrow> string" where
  "strings_Title U s =
     concat (map (\<lambda>r. if 0 \<le> r then AppendRune r else []) (Title_runes U 0x20 (runes s)))"

fun Join :: "string list \<Rightarrow> string \<Rightarrow> string" where
  "Join [] sep = []"
| "Join [a] sep = a"
| "Join (a # b # elems) sep = a @ sep @ Join (b # elems) sep"

text \<open>
  \<^verbatim>\<open>strings.HasPrefix\<close> and \<^verbatim>\<open>strings.Index\<close> (the index of the first occurrence of
  \<open>substr\<close>, \<open>None\<close> for the library's \<open>-1\<close>).
\<close>

definition HasPrefix :: "string \<Rightarrow> string \<Rightarrow> bool" where
  "HasPrefix s prefix = (length prefix \<le> length s \<and> take (length prefix) s = prefix)"

fun Index :: "string \<Rightarrow> string \<Rightarrow> nat option" where
  "Index [] substr = (if substr = [] then Some 0 else None)"
| "Index (c # cs) substr =
     (if HasPrefix (c # cs) substr then Some 0 else map_option Suc (Index cs substr))"

lemma Index_bound: "Index s substr = Some m \<Longrightarrow> m + length substr \<le> length s"
  by (induction s arbitrary: m) (auto simp: HasPrefix_def split: if_splits)

text \<open>
  \<^verbatim>\<open>strings.Split\<close>.  With a non-empty separator the string is cut at every occurrence
  of the separator, found from left to right; an input without the separator (the empty
  string too) gives the one-element list of the input.  With the empty separator the
  library cuts after every UTF-8 sequence; this program never passes it.
\<close>

function explode :: "string \<Rightarrow> string list" where
  "explode s =
    (if s = [] then []
     else take (snd (DecodeRuneInString s)) s # explode (drop (snd (DecodeRuneInString s)) s))"
  by pat_completeness auto
termination
proof (relation "measure length")
  show "wf (measure length)" by simp
next
  fix s :: string
  assume "s \<noteq> []"
  then have "1 \<le> snd (DecodeRuneInString s)"
    using DecodeRuneInString_width by blast
  with \<open>s \<noteq> []\<close> show "(drop (snd (DecodeRuneInString s)) s, s) \<in> measure length"
    by (cases s) auto
qed

function split_nonempty :: "string \<Rightarrow> string \<Rightarrow> string list" where
  "split_nonempty s sep =
    (case Index s sep of
       None \<Rightarrow> [s]
     | Some m \<Rightarrow>
         if sep = [] then [s] else take m s # split_nonempty (drop (m + length sep) s) sep)"
  by pat_completeness auto
termination
proof (relation "measure (\<lambda>(s, sep). length s)")
  show "wf (measure (\<lambda>(s, sep). length s))" by simp
next
  fix s sep :: string and m :: nat
  assume "Index s sep = Some m" and "sep \<noteq> []"
  then have "m + length sep \<le> length s" and "0 < length sep"
    using Index_bound by auto
  then show "((drop (m + length sep) s, sep), (s, sep)) \<in> measure (\<lambda>(s, sep). length s)"
    by (cases sep) auto
qed

declare explode.simps [simp del] split_nonempty.simps [simp del]

definition Split :: "string \<Rightarrow> string \<Rightarrow> string list" where
  "Split s sep = (if sep = [] then explode s else split_nonempty s sep)"

text \<open>
  \<^verbatim>\<open>strings.TrimSpace\<close> and what it calls.  The library's \<^verbatim>\<open>asciiSpace\<close> table holds tab, line
  feed, vertical tab, form feed, carriage return and space.
\<close>

definition asciiSpace :: "char \<Rightarrow> bool" where
  "asciiSpace c = ((of_char c :: int) \<in> {0x09, 0x0A, 0x0B, 0x0C, 0x0D, 0x20})"

text \<open>
  \<^verbatim>\<open>indexFunc\<close>: the index of the first rune of the range loop on which \<open>f\<close> is \<open>truth\<close>
  (\<open>None\<close> for \<open>-1\<close>).
\<close>

definition indexFunc :: "string \<Rightarrow> (rune \<Rightarrow> bool) \<Rightarrow> bool \<Rightarrow> nat option" where
  "indexFunc s f truth = map_option fst (find (\<lambda>ir. f (snd ir) = truth) (rangeString s))"

definition TrimLeftFunc :: "string \<Rightarrow> (rune \<Rightarrow> bool) \<Rightarrow> string" where
  "TrimLeftFunc s f = (case indexFunc s f False of None \<Rightarrow> [] | Some i \<Rightarrow> drop i s)"

text \<open>
  \<^verbatim>\<open>utf8.DecodeLastRuneInString\<close>: from the last byte the library walks back over at most three
  bytes to a byte that can start a rune (\<open>scanRuneStart\<close> is that loop, \<open>lastRuneStart\<close> its
  result, not below zero), decodes from there, and accepts the rune if it ends at the end
  of the string.
\<close>

definition RuneStart :: "char \<Rightarrow> bool" where
  "RuneStart b = (\<not> (0x80 \<le> (of_char b :: int) \<and> (of_char b :: int) \<le> 0xBF))"

function scanRuneStart :: "string \<Rightarrow> int \<Rightarrow> int \<Rightarrow> int" where
  "scanRuneStart s start lim =
    (if lim \<le> start
     then (if RuneStart (s ! nat start) then start else scanRuneStart s (start - 1) lim)
     else start)"
  by pat_completeness auto
termination
  by (relation "measure (\<lambda>(s, start, lim). nat (start - lim + 1))") auto

declare scanRuneStart.simps [simp del]

definition lastRuneStart :: "string \<Rightarrow> nat" where
  "lastRuneStart s =
    (let end = int (length s);
         lim = (if end - 4 < 0 then 0 else end - 4);
         start = scanRuneStart s (end - 1 - 1) lim
     in nat (if start < 0 then 0 else start))"

definition DecodeLastRuneInString :: "string \<Rightarrow> rune \<times> nat" where
  "DecodeLastRuneInString s =
    (if length s = 0 then (RuneError, 0)
     else
       let r = (of_char (s ! (length s - 1)) :: int)
       in if r < RuneSelf then (r, 1)
          else
            let start = lastRuneStart s;
                rs = DecodeRuneInString (drop start s)
            in if start + snd rs \<noteq> length s then (RuneError, 1) else rs)"

lemma scanRuneStart_le: "scanRuneStart s start lim \<le> start"
proof (induction s start lim rule: scanRuneStart.induct)
  case (1 s start lim)
  show ?case
  proof (cases "lim \<le> start \<and> \<not> RuneStart (s ! nat start)")
    case True
    with "1.IH" have "scanRuneStart s (start - 1) lim \<le> start - 1" by simp
    with True show ?thesis by (simp add: scanRuneStart.simps [of s start lim])
  next
    case False
    then show ?thesis by (auto simp: scanRuneStart.simps [of s start lim])
  qed
qed

lemma lastRuneStart_less:
  assumes "s \<noteq> []"
  shows "lastRuneStart s < length s"
proof -
  have l: "0 < length s" using assms by simp
  have le: "scanRuneStart s (int (length s) - 1 - 1) lim \<le> int (length s) - 2" for lim
    using scanRuneStart_le [of s "int (length s) - 1 - 1" lim] by simp
  show ?thesis
    using le [of "if int (length s) - 4 < 0 then 0 else int (length s) - 4"] l
    unfolding lastRuneStart_def Let_def by (auto split: if_splits)
qed

lemma DecodeLastRuneInString_width:
  assumes "s \<noteq> []"
  shows "1 \<le> snd (DecodeLastRuneInString s) \<and> snd (DecodeLastRuneInString s) \<le> length s"
proof -
  have l: "0 < length s" using assms by simp
  have st: "lastRuneStart s < length s" using lastRuneStart_less [OF assms] .
  show ?thesis
  proof (cases "lastRuneStart s + snd (DecodeRuneInString (drop (lastRuneStart s) s)) = length s")
    case True
    with st have "1 \<le> snd (DecodeRuneInString (drop (lastRuneStart s) s))"
      and "snd (DecodeRuneInString (drop (lastRuneStart s) s)) \<le> length s" by linarith+
    with l True show ?thesis by (simp add: DecodeLastRuneInString_def Let_def)
  next
    case False
    with l show ?thesis by (simp add: DecodeLastRuneInString_def Let_def Suc_le_eq)
  qed
qed

text \<open>\<^verbatim>\<open>lastIndexFunc\<close>: the same search from the end of the string, rune by rune.\<close>

function lastIndexFunc :: "string \<Rightarrow> (rune \<Rightarrow> bool) \<Rightarrow> bool \<Rightarrow> nat option" where
  "lastIndexFunc s f truth =
    (if s = [] then None
     else if f (fst (DecodeLastRuneInString s)) = truth
          then Some (length s - snd (DecodeLastRuneInString s))
          else lastIndexFunc (take (length s - snd (DecodeLastRuneInString s)) s) f truth)"
  by pat_completeness auto
termination
proof (relation "measure (\<lambda>(s, f, truth). length s)")
  show "wf (measure (\<lambda>(s, f, truth). length s))" by simp
next
  fix s :: string and f :: "rune \<Rightarrow> bool" and truth :: bool
  assume "s \<noteq> []"
  from DecodeLastRuneInString_width [OF this] \<open>s \<noteq> []\<close>
  show "((take (length s - snd (DecodeLastRuneInString s)) s, f, truth), (s, f, truth))
          \<in> measure (\<lambda>(s, f, truth). length s)"
    by (cases s) auto
qed

declare lastIndexFunc.simps [simp del]

definition TrimRightFunc :: "string \<Rightarrow> (rune \<Rightarrow> bool) \<Rightarrow> string" where
  "TrimRightFunc s f =
    (case lastIndexFunc s f False of
       None \<Rightarrow> take 0 s
     | Some i \<Rightarrow>
         if RuneSelf \<le> (of_char (s ! i) :: int)
         then take (i + snd (DecodeRuneInString (drop i s))) s
         else take (i + 1) s)"

definition TrimFunc :: "string \<Rightarrow> (rune \<Rightarrow> bool) \<Rightarrow> string" where
  "TrimFunc s f = TrimRightFunc (TrimLeftFunc s f) f"

text \<open>
  \<^verbatim>\<open>TrimSpace\<close> skips ASCII space bytes from the left and then from the right
  (\<open>TrimSpace_stop\<close>); at the first byte outside ASCII it hands the rest to the functions
  above with \<^verbatim>\<open>unicode.IsSpace\<close>.
\<close>

fun TrimSpace_stop :: "tables \<Rightarrow> string \<Rightarrow> string" where
  "TrimSpace_stop U s =
    (if s = [] then []
     else if RuneSelf \<le> (of_char (last s) :: int) then TrimRightFunc s (IsSpace U)
     else if asciiSpace (last s) then TrimSpace_stop U (butlast s)
     else s)"

declare TrimSpace_stop.simps [simp del]

fun TrimSpace :: "tables \<Rightarrow> string \<Rightarrow> string" where
  "TrimSpace U [] = []"
| "TrimSpace U (c # cs) =
    (if RuneSelf \<le> (of_char c :: int) then TrimFunc (c # cs) (IsSpace U)
     else if asciiSpace c then TrimSpace U cs
     else TrimSpace_stop U (c # cs))"

text \<open>
  \<^verbatim>\<open>strings.Fields\<close>: an ASCII string is cut at runs of ASCII space bytes; any other string
  goes through \<^verbatim>\<open>FieldsFunc\<close>, whose loop records the spans between runes that satisfy \<open>f\<close>
  (\<open>start\<close> is negative while no field is open).
\<close>

fun fields_ascii :: "string \<Rightarrow> string \<Rightarrow> string list" where
  "fields_ascii field [] = (if field \<noteq> [] then [field] else [])"
| "fields_ascii field (c # cs) =
    (if asciiSpace c
     then (if field \<noteq> [] then field # fields_ascii [] cs else fields_ascii [] cs)
     else fields_ascii (field @ [c]) cs)"

definition FieldsFunc_step ::
  "(rune \<Rightarrow> bool) \<Rightarrow> (nat \<times> nat) list \<times> int \<Rightarrow> nat \<times> rune \<Rightarrow> (nat \<times> nat) list \<times> int" where
  "FieldsFunc_step f st ir = (case st of (spans, start) \<Rightarrow> case ir of (end, r) \<Rightarrow>
     if f r then (if 0 \<le> start then (spans @ [(nat start, end)], - start - 1) else (spans, start))
     else (if start < 0 then (spans, int end) else (spans, start)))"

definition FieldsFunc :: "string \<Rightarrow> (rune \<Rightarrow> bool) \<Rightarrow> string list" where
  "FieldsFunc s f =
    (case foldl (FieldsFunc_step f) ([], - 1) (rangeString s) of (spans, start) \<Rightarrow>
       map (\<lambda>(a, b). take (b - a) (drop a s))
         (if 0 \<le> start then spans @ [(nat start, length s)] else spans))"

definition Fields :: "tables \<Rightarrow> string \<Rightarrow> string list" where
  "Fields U s = (if isASCII s then fields_ascii [] s else FieldsFunc s (IsSpace U))"

text \<open>
  \<^verbatim>\<open>strings.ReplaceAll\<close>: every occurrence of \<open>old\<close>, found from left to right without
  overlap, is replaced by \<open>new\<close>; an empty \<open>old\<close> matches before every UTF-8 sequence and
  at the end of the string.
\<close>

function replace_all :: "string \<Rightarrow> string \<Rightarrow> string \<Rightarrow> string" where
  "replace_all s old new =
    (case Index s old of
       None \<Rightarrow> s
     | Some j \<Rightarrow>
         if old = [] then s else take j s @ new @ replace_all (drop (j + length old) s) old new)"
  by pat_completeness auto
termination
proof (relation "measure (\<lambda>(s, old, new). length s)")
  show "wf (measure (\<lambda>(s, old, new). length s))" by simp
next
  fix s old new :: string and j :: nat
  assume "Index s old = Some j" and "old \<noteq> []"
  then have "j + length old \<le> length s" and "0 < length old"
    using Index_bound by auto
  then show "((drop (j + length old) s, old, new), (s, old, new)) \<in> measure (\<lambda>(s, old, new). length s)"
    by (cases old) auto
qed

declare replace_all.simps [simp del]

definition ReplaceAll :: "string \<Rightarrow> string \<Rightarrow> string \<Rightarrow> string" where
  "ReplaceAll s old new =
    (if old = new then s
     else if old = [] then new @ concat (map (\<lambda>chunk. chunk @ new) (explode s))
     else replace_all s old new)"

section \<open>The tokenizer\<close>

text \<open>
  The state of the loop of \<^verbatim>\<open>splitWords\<close> is the pair of \<^verbatim>\<open>words\<close> and the contents of
  the builder \<^verbatim>\<open>currentWord\<close>.  \<open>flush\<close> is the block
  \<^verbatim>\<open>if currentWord.Len() > 0 { words = append(words, currentWord.String()); currentWord.Reset() }\<close>,
  which the function has three times (the last one without the reset, which nothing observes).
\<close>

type_synonym split_state = "string list \<times> string"

definition flush :: "split_state \<Rightarrow> split_state" where
  "flush st = (case st of (words, currentWord) \<Rightarrow>
     if 0 < length currentWord then (words @ [currentWord], []) else (words, currentWord))"

text \<open>
  One iteration of \<^verbatim>\<open>for i, r := range s\<close>.  The test of the camelCase transition reads
  the byte \<^verbatim>\<open>s[i-1]\<close> of the whole input and converts that single byte to a rune.
\<close>

definition splitWords_step :: "tables \<Rightarrow> string \<Rightarrow> split_state \<Rightarrow> nat \<times> rune \<Rightarrow> split_state" where
  "splitWords_step U s st ir = (case ir of (i, r) \<Rightarrow>
     if IsLetter U r \<or> IsNumber U r then
       (case (if 0 < i \<and> IsUpper U r \<and> IsLower U (of_char (s ! (i - 1))) then flush st else st)
        of (words, currentWord) \<Rightarrow> (words, currentWord @ AppendRune r))
     else flush st)"

definition splitWords :: "tables \<Rightarrow> string \<Rightarrow> string list" where
  "splitWords U s = fst (flush (foldl (splitWords_step U s) ([], []) (rangeString s)))"

section \<open>The case renderer\<close>

definition toCamelCase :: "tables \<Rightarrow> string \<Rightarrow> string" where
  "toCamelCase U s =
    (case splitWords U s of
       [] \<Rightarrow> []
     | w # ws \<Rightarrow>
         foldl (\<lambda>result word. result @ strings_Title U (strings_ToLower U word))
           (strings_ToLower U w) ws)"

definition toPascalCase :: "tables \<Rightarrow> string \<Rightarrow> string" where
  "toPascalCase U s =
     foldl (\<lambda>result word. result @ strings_Title U (strings_ToLower U word)) [] (splitWords U s)"

definition toSnakeCase :: "tables \<Rightarrow> string \<Rightarrow> string" where
  "toSnakeCase U s = Join (map (strings_ToLower U) (splitWords U s)) ''_''"

definition toKebabCase :: "tables \<Rightarrow> string \<Rightarrow> string" where
  "toKebabCase U s = Join (map (strings_ToLower U) (splitWords U s)) ''-''"

definition toConstantCase :: "tables \<Rightarrow> string \<Rightarrow> string" where
  "toConstantCase U s = Join (map (strings_ToUpper U) (splitWords U s)) ''_''"

definition ConvertCase :: "tables \<Rightarrow> string \<Rightarrow> string \<Rightarrow> string" where
  "ConvertCase U text caseType =
    (if caseType = ''camelCase'' then toCamelCase U text
     else if caseType = ''PascalCase'' then toPascalCase U text
     else if caseType = ''snake_case'' then toSnakeCase U text
     else if caseType = ''kebab-case'' then toKebabCase U text
     else if caseType = ''CONSTANT_CASE'' then toConstantCase U text
     else text)"

section \<open>The simple transforms\<close>

text \<open>
  \<^verbatim>\<open>RemoveDuplicateLines\<close>.  The loop state is the map \<^verbatim>\<open>seen\<close> and the slice
  \<^verbatim>\<open>result\<close>; reading a key that the map does not hold gives \<^verbatim>\<open>false\<close>.
\<close>

definition dedup_step ::
  "(string \<rightharpoonup> bool) \<times> string list \<Rightarrow> string \<Rightarrow> (string \<rightharpoonup> bool) \<times> string list" where
  "dedup_step st line = (case st of (seen, result) \<Rightarrow>
     if \<not> (case seen line of None \<Rightarrow> False | Some b \<Rightarrow> b)
     then (seen(line \<mapsto> True), result @ [line])
     else (seen, result))"

definition RemoveDuplicateLines :: "string \<Rightarrow> string" where
  "RemoveDuplicateLines text =
    (let lines = Split text ''\<newline>'';
         result = snd (foldl dedup_step (Map.empty, []) lines)
     in Join result ''\<newline>'')"

text \<open>
  \<^verbatim>\<open>ReverseText\<close>.  The loop swaps \<^verbatim>\<open>runes[i]\<close> and \<^verbatim>\<open>runes[j]\<close> while \<^verbatim>\<open>i < j\<close>; the indices
  are Go \<^verbatim>\<open>int\<close>s, and \<open>j\<close> starts at \<open>-1\<close> for the empty slice.
\<close>

function reverse_loop :: "rune list \<Rightarrow> int \<Rightarrow> int \<Rightarrow> rune list" where
  "reverse_loop rs i j =
    (if i < j then reverse_loop (rs[nat i := rs ! nat j, nat j := rs ! nat i]) (i + 1) (j - 1)
     else rs)"
  by pat_completeness auto
termination
  by (relation "measure (\<lambda>(rs, i, j). nat (j - i))") auto

declare reverse_loop.simps [simp del]

definition ReverseText :: "string \<Rightarrow> string" where
  "ReverseText text =
    (let rs = runes text in string_of_runes (reverse_loop rs 0 (int (length rs) - 1)))"

text \<open>
  \<^verbatim>\<open>WordCount\<close>.  The result is the map literal of the source; \<^verbatim>\<open>len\<close> of a string is its
  number of bytes.
\<close>

definition WordCount :: "tables \<Rightarrow> string \<Rightarrow> (string \<rightharpoonup> int)" where
  "WordCount U text0 =
    (let text = TrimSpace U text0;
         lines = Split text ''\<newline>'';
         lineCount = length lines;
         paragraphs = Split text ''\<newline>\<newline>'';
         paragraphCount = length (filter (\<lambda>p. TrimSpace U p \<noteq> []) paragraphs);
         charCount = length text;
         charNoSpaces = length (ReplaceAll (ReplaceAll text '' '' []) ''\<newline>'' []);
         words = Fields U text;
         wordCount = length words
     in [''words'' \<mapsto> int wordCount,
         ''characters'' \<mapsto> int charCount,
         ''charactersNoSpaces'' \<mapsto> int charNoSpaces,
         ''lines'' \<mapsto> int lineCount,
         ''paragraphs'' \<mapsto> int paragraphCount])"

section \<open>A fragment of the Unicode tables\<close>

text \<open>
  The examples below need some value of the tables.  \<open>sample_tables\<close> holds a fragment
  of them: the case mappings of the Latin-1 letters, and the basic Greek and Cyrillic
  alphabets (capital letters \<open>U+0391..U+03A9\<close> and \<open>U+0410..U+042F\<close>, each 32 below its
  small letter).  Every theorem about the program is stated for arbitrary tables.
\<close>

definition sample_upper :: "rune \<Rightarrow> bool" where
  "sample_upper r = ((0x391 \<le> r \<and> r \<le> 0x3A9 \<and> r \<noteq> 0x3A2) \<or> (0x410 \<le> r \<and> r \<le> 0x42F))"

definition sample_lower :: "rune \<Rightarrow> bool" where
  "sample_lower r = ((0x3B1 \<le> r \<and> r \<le> 0x3C9) \<or> (0x430 \<le> r \<and> r \<le> 0x44F))"

definition sample_to_upper :: "rune \<Rightarrow> rune" where
  "sample_to_upper r =
    (if r = 0xB5 then 0x39C
     else if r = 0xFF then 0x178
     else if 0xE0 \<le> r \<and> r \<le> 0xFE \<and> r \<noteq> 0xF7 then r - 0x20
     else if sample_lower r \<and> r \<noteq> 0x3C2 then r - 0x20
     else r)"

definition sample_to_lower :: "rune \<Rightarrow> rune" where
  "sample_to_lower r =
    (if 0xC0 \<le> r \<and> r \<le> 0xDE \<and> r \<noteq> 0xD7 then r + 0x20
     else if sample_upper r then r + 0x20
     else r)"

definition sample_fold_orbit :: "rune \<Rightarrow> rune \<Rightarrow> bool" where
  "sample_fold_orbit a b =
    (a \<noteq> b \<and>
     (sample_to_lower a = b \<or> sample_to_lower b = a
      \<or> (a \<in> {0x4B, 0x6B, 0x212A} \<and> b \<in> {0x4B, 0x6B, 0x212A})
      \<or> (a \<in> {0x53, 0x73, 0x17F} \<and> b \<in> {0x53, 0x73, 0x17F})))"

definition sample_tables :: tables where
  "sample_tables =
    \<lparr> Letter = (\<lambda>r. sample_upper r \<or> sample_lower r),
      Number = (\<lambda>r. False),
      Digit = (\<lambda>r. False),
      Upper = sample_upper,
      Lower = sample_lower,
      White_Space = (\<lambda>r. r = 0x2028 \<or> r = 0x2029 \<or> r = 0x3000),
      To_UpperCase = sample_to_upper,
      To_LowerCase = sample_to_lower,
      To_TitleCase = sample_to_upper,
      SimpleFoldOrbit = sample_fold_orbit \<rparr>"

section \<open>UTF-8: decoding what was encoded\<close>

lemma byte_range: "0 \<le> (of_char c :: int) \<and> (of_char c :: int) < 256"
proof -
  have "(of_char c :: int) mod 256 = of_char c" by simp
  then show ?thesis
    by (metis pos_mod_bound pos_mod_sign zero_less_numeral)
qed

text \<open>The Unicode scalar values: the runes that have an encoding of their own.\<close>

definition valid_rune :: "rune \<Rightarrow> bool" where
  "valid_rune r = (0 \<le> r \<and> r \<le> MaxRune \<and> \<not> (0xD800 \<le> r \<and> r \<le> 0xDFFF))"

lemma cont_mod: "0x80 \<le> (b::int) \<Longrightarrow> b \<le> 0xBF \<Longrightarrow> b mod 64 = b - 128"
  by presburger
lemma lead2_mod: "0xC0 \<le> (b::int) \<Longrightarrow> b < 0xE0 \<Longrightarrow> b mod 32 = b - 192"
  by presburger
lemma lead3_mod: "0xE0 \<le> (b::int) \<Longrightarrow> b < 0xF0 \<Longrightarrow> b mod 16 = b - 224"
  by presburger
lemma lead4_mod: "0xF0 \<le> (b::int) \<Longrightarrow> b < 0xF8 \<Longrightarrow> b mod 8 = b - 240"
  by presburger

text \<open>The accepted range of the second byte, by first byte (the library's \<^verbatim>\<open>acceptRanges\<close>).\<close>

definition accept_lo :: "int \<Rightarrow> int" where
  "accept_lo s0 = (if s0 = 0xE0 then 0xA0 else if s0 = 0xF0 then 0x90 else 0x80)"
definition accept_hi :: "int \<Rightarrow> int" where
  "accept_hi s0 = (if s0 = 0xED then 0x9F else if s0 = 0xF4 then 0x8F else 0xBF)"

lemma Decode_ascii:
  "(of_char c0 :: int) < 0x80 \<Longrightarrow> DecodeRuneInString (c0 # cs) = (of_char c0, 1)"
  by (simp add: RuneSelf_def)

lemma Decode_bad_lead:
  "0x80 \<le> (of_char c0 :: int) \<Longrightarrow> (of_char c0 :: int) < 0xC2 \<or> 0xF4 < (of_char c0 :: int) \<Longrightarrow>
     DecodeRuneInString (c0 # cs) = (RuneError, 1)"
  by (simp add: RuneSelf_def)

lemma Decode_short:
  "0xC2 \<le> (of_char c0 :: int) \<Longrightarrow> DecodeRuneInString [c0] = (RuneError, 1)"
  by (simp add: RuneSelf_def Let_def)

lemma Decode_two:
  assumes "0xC2 \<le> (of_char c0 :: int)" "(of_char c0 :: int) \<le> 0xDF"
  shows "DecodeRuneInString (c0 # c1 # cs) =
     (if 0x80 \<le> (of_char c1 :: int) \<and> (of_char c1 :: int) \<le> 0xBF
      then ((of_char c0 - 192) * 64 + (of_char c1 - 128), 2) else (RuneError, 1))"
  using assms by (simp add: RuneSelf_def Let_def cont_mod lead2_mod)

lemma Decode_three:
  assumes "0xE0 \<le> (of_char c0 :: int)" "(of_char c0 :: int) \<le> 0xEF"
  shows "DecodeRuneInString (c0 # c1 # cs) =
     (if accept_lo (of_char c0) \<le> (of_char c1 :: int) \<and> (of_char c1 :: int) \<le> accept_hi (of_char c0)
         \<and> cs \<noteq> [] \<and> 0x80 \<le> (of_char (hd cs) :: int) \<and> (of_char (hd cs) :: int) \<le> 0xBF
      then ((of_char c0 - 224) * 4096 + (of_char c1 - 128) * 64 + (of_char (hd cs) - 128), 3)
      else (RuneError, 1))"
proof (cases cs)
  case Nil
  with assms show ?thesis by (simp add: RuneSelf_def Let_def)
next
  case (Cons c2 cs')
  have "accept_lo (of_char c0) \<le> (of_char c1 :: int) \<and> (of_char c1 :: int) \<le> accept_hi (of_char c0)
     \<Longrightarrow> 0x80 \<le> (of_char c1 :: int) \<and> (of_char c1 :: int) \<le> 0xBF"
    by (auto simp: accept_lo_def accept_hi_def split: if_splits)
  with assms Cons show ?thesis
    by (auto simp: RuneSelf_def Let_def cont_mod lead3_mod accept_lo_def accept_hi_def)
qed


lemma Decode_four:
  assumes "0xF0 \<le> (of_char c0 :: int)" "(of_char c0 :: int) \<le> 0xF4"
  shows "DecodeRuneInString (c0 # c1 # c2 # c3 # cs) =
     (if accept_lo (of_char c0) \<le> (of_char c1 :: int) \<and> (of_char c1 :: int) \<le> accept_hi (of_char c0)
         \<and> 0x80 \<le> (of_char c2 :: int) \<and> (of_char c2 :: int) \<le> 0xBF
         \<and> 0x80 \<le> (of_char c3 :: int) \<and> (of_char c3 :: int) \<le> 0xBF
      then ((of_char c0 - 240) * 262144 + (of_char c1 - 128) * 4096 + (of_char c2 - 128) * 64
              + (of_char c3 - 128), 4)
      else (RuneError, 1))"
proof -
  have "accept_lo (of_char c0) \<le> (of_char c1 :: int) \<and> (of_char c1 :: int) \<le> accept_hi (of_char c0)
     \<Longrightarrow> 0x80 \<le> (of_char c1 :: int) \<and> (of_char c1 :: int) \<le> 0xBF"
    by (auto simp: accept_lo_def accept_hi_def split: if_splits)
  with assms show ?thesis
    by (auto simp: RuneSelf_def Let_def cont_mod lead4_mod accept_lo_def accept_hi_def)
qed

lemma Decode_four_short:
  assumes "0xF0 \<le> (of_char c0 :: int)" "(of_char c0 :: int) \<le> 0xF4" "length cs < 3"
  shows "DecodeRuneInString (c0 # cs) = (RuneError, 1)"
  using assms by (simp add: RuneSelf_def Let_def)

lemma Decode_three_short:
  assumes "0xE0 \<le> (of_char c0 :: int)" "(of_char c0 :: int) \<le> 0xEF" "length cs < 2"
  shows "DecodeRuneInString (c0 # cs) = (RuneError, 1)"
  using assms by (simp add: RuneSelf_def Let_def)

declare DecodeRuneInString.simps [simp del]

lemma pack2: "0 \<le> (y::int) \<Longrightarrow> y < 64 \<Longrightarrow> (x * 64 + y) div 64 = x \<and> (x * 64 + y) mod 64 = y"
  by simp

lemma div_4096: "(r::int) div 4096 = r div 64 div 64"
proof -
  have "r div (64 * 64) = r div 64 div 64"
    by (rule zdiv_zmult2_eq) simp
  then show ?thesis by simp
qed

lemma div_262144: "(r::int) div 262144 = r div 4096 div 64"
proof -
  have "r div (4096 * 64) = r div 4096 div 64"
    by (rule zdiv_zmult2_eq) simp
  then show ?thesis by simp
qed

lemma pack3:
  assumes "0 \<le> (y::int)" "y < 64" "0 \<le> (z::int)" "z < 64"
  shows "(x * 4096 + y * 64 + z) div 4096 = x" 
    and "((x * 4096 + y * 64 + z) div 64) mod 64 = y"
    and "(x * 4096 + y * 64 + z) mod 64 = z"
proof -
  have e: "x * 4096 + y * 64 + z = (x * 64 + y) * 64 + z" by simp
  have d: "(x * 4096 + y * 64 + z) div 64 = x * 64 + y"
    unfolding e using pack2 [OF assms(3,4)] by blast
  show "(x * 4096 + y * 64 + z) mod 64 = z"
    unfolding e using pack2 [OF assms(3,4)] by blast
  show "((x * 4096 + y * 64 + z) div 64) mod 64 = y"
    unfolding d using pack2 [OF assms(1,2)] by blast
  show "(x * 4096 + y * 64 + z) div 4096 = x"
    unfolding div_4096 d using pack2 [OF assms(1,2)] by blast
qed

lemma pack4:
  assumes "0 \<le> (x::int)" "x < 64" "0 \<le> (y::int)" "y < 64" "0 \<le> (z::int)" "z < 64"
  shows "(w * 262144 + x * 4096 + y * 64 + z) div 262144 = w" 
    and "((w * 262144 + x * 4096 + y * 64 + z) div 4096) mod 64 = x"
    and "((w * 262144 + x * 4096 + y * 64 + z) div 64) mod 64 = y"
    and "(w * 262144 + x * 4096 + y * 64 + z) mod 64 = z"
proof -
  have e: "w * 262144 + x * 4096 + y * 64 + z = (w * 64 + x) * 4096 + y * 64 + z" by simp
  show "(w * 262144 + x * 4096 + y * 64 + z) mod 64 = z"
    unfolding e by (rule pack3(3) [OF assms(3,4,5,6)])
  show "((w * 262144 + x * 4096 + y * 64 + z) div 64) mod 64 = y"
    unfolding e by (rule pack3(2) [OF assms(3,4,5,6)])
  have d2: "(w * 262144 + x * 4096 + y * 64 + z) div 4096 = w * 64 + x"
    unfolding e by (rule pack3(1) [OF assms(3,4,5,6)])
  show "((w * 262144 + x * 4096 + y * 64 + z) div 4096) mod 64 = x"
    unfolding d2 using pack2 [OF assms(1,2)] by blast
  show "(w * 262144 + x * 4096 + y * 64 + z) div 262144 = w"
    unfolding div_262144 d2 using pack2 [OF assms(1,2)] by blast
qed


lemma byte_char_of: "0 \<le> x \<Longrightarrow> x < 256 \<Longrightarrow> (of_char (char_of (x::int)) :: int) = x"
  by simp

lemma unpack3: "((r::int) div 4096) * 4096 + ((r div 64) mod 64) * 64 + r mod 64 = r"
proof -
  have "(r div 64 div 64) * 64 + (r div 64) mod 64 = r div 64"
    by (rule div_mult_mod_eq)
  then have "((r div 4096) * 64 + (r div 64) mod 64) * 64 + r mod 64 = (r div 64) * 64 + r mod 64"
    unfolding div_4096 by (rule arg_cong)
  also have "\<dots> = r" by (rule div_mult_mod_eq)
  finally show ?thesis by (simp only: distrib_right mult.assoc)
qed

lemma unpack4:
  "((r::int) div 262144) * 262144 + ((r div 4096) mod 64) * 4096 + ((r div 64) mod 64) * 64 + r mod 64 = r"
proof -
  have "(r div 4096 div 64) * 64 + (r div 4096) mod 64 = r div 4096"
    by (rule div_mult_mod_eq)
  then have "((r div 262144) * 64 + (r div 4096) mod 64) * 4096 + ((r div 64) mod 64) * 64 + r mod 64
               = (r div 4096) * 4096 + ((r div 64) mod 64) * 64 + r mod 64"
    unfolding div_262144 by (rule arg_cong)
  also have "\<dots> = r" by (rule unpack3)
  finally show ?thesis by (simp only: distrib_right mult.assoc)
qed

lemma range2: "0x80 \<le> (r::int) \<Longrightarrow> r \<le> 0x7FF \<Longrightarrow> 2 \<le> r div 64 \<and> r div 64 \<le> 31"
  by linarith

lemma range3: "0x800 \<le> (r::int) \<Longrightarrow> r \<le> 0xFFFF \<Longrightarrow> 0 \<le> r div 4096 \<and> r div 4096 \<le> 15"
  by linarith

lemma range3_lo:
  assumes "0x800 \<le> (r::int)" "r div 4096 = 0"
  shows "32 \<le> (r div 64) mod 64"
proof -
  define x where "x = r div 4096"
  define y where "y = (r div 64) mod 64"
  define z where "z = r mod 64"
  have "x * 4096 + y * 64 + z = r"
    unfolding x_def y_def z_def by (rule unpack3)
  moreover have "z < 64" by (simp add: z_def)
  moreover have "x = 0" using assms(2) by (simp add: x_def)
  ultimately have "32 \<le> y" using assms(1) by linarith
  then show ?thesis by (simp add: y_def)
qed

lemma range3_hi:
  assumes "r < (0xD800::int)" "r div 4096 = 13"
  shows "(r div 64) mod 64 \<le> 31"
proof -
  define x where "x = r div 4096"
  define y where "y = (r div 64) mod 64"
  define z where "z = r mod 64"
  have "x * 4096 + y * 64 + z = r"
    unfolding x_def y_def z_def by (rule unpack3)
  moreover have "0 \<le> z" by (simp add: z_def)
  moreover have "x = 13" using assms(2) by (simp add: x_def)
  ultimately have "y \<le> 31" using assms(1) by linarith
  then show ?thesis by (simp add: y_def)
qed

lemma range4: "0x10000 \<le> (r::int) \<Longrightarrow> r \<le> 0x10FFFF \<Longrightarrow> 0 \<le> r div 262144 \<and> r div 262144 \<le> 4"
  by linarith

lemma range4_lo:
  assumes "0x10000 \<le> (r::int)" "r div 262144 = 0"
  shows "16 \<le> (r div 4096) mod 64"
proof -
  define w where "w = r div 262144"
  define x where "x = (r div 4096) mod 64"
  define y where "y = (r div 64) mod 64"
  define z where "z = r mod 64"
  have "w * 262144 + x * 4096 + y * 64 + z = r"
    unfolding w_def x_def y_def z_def by (rule unpack4)
  moreover have "z < 64" "y < 64" by (simp_all add: z_def y_def)
  moreover have "w = 0" using assms(2) by (simp add: w_def)
  ultimately have "16 \<le> x" using assms(1) by linarith
  then show ?thesis by (simp add: x_def)
qed

lemma range4_hi:
  assumes "r \<le> (0x10FFFF::int)" "r div 262144 = 4"
  shows "(r div 4096) mod 64 \<le> 15"
proof -
  define w where "w = r div 262144"
  define x where "x = (r div 4096) mod 64"
  define y where "y = (r div 64) mod 64"
  define z where "z = r mod 64"
  have "w * 262144 + x * 4096 + y * 64 + z = r"
    unfolding w_def x_def y_def z_def by (rule unpack4)
  moreover have "0 \<le> z" "0 \<le> y" by (simp_all add: z_def y_def)
  moreover have "w = 4" using assms(2) by (simp add: w_def)
  ultimately have "x \<le> 15" using assms(1) by linarith
  then show ?thesis by (simp add: x_def)
qed


lemma cont_byte: "0x80 \<le> 0x80 + (n::int) mod 64 \<and> 0x80 + n mod 64 \<le> 0xBF"
proof -
  have "0 \<le> n mod 64" "n mod 64 < 64" by simp_all
  then show ?thesis by linarith
qed

lemma Decode_AppendRune:
  assumes "valid_rune r"
  shows "DecodeRuneInString (AppendRune r @ rest) = (r, length (AppendRune r))"
proof -
  consider (a) "0 \<le> r" "r \<le> 0x7F" | (b) "0x80 \<le> r" "r \<le> 0x7FF"
    | (c) "0x800 \<le> r" "r \<le> 0xFFFF" "\<not> (0xD800 \<le> r \<and> r \<le> 0xDFFF)"
    | (d) "0x10000 \<le> r" "r \<le> 0x10FFFF"
    using assms unfolding valid_rune_def MaxRune_def by linarith
  then show ?thesis
  proof cases
    case a
    then have A: "AppendRune r = [char_of r]" by (simp add: AppendRune_def)
    have "(of_char (char_of r) :: int) = r" using a by simp
    then have "DecodeRuneInString (char_of r # rest) = (r, 1)"
      using a Decode_ascii [of "char_of r" rest] by simp
    then show ?thesis by (simp add: A)
  next
    case b
    define b0 where "b0 = 0xC0 + r div 64"
    define b1 where "b1 = 0x80 + r mod 64"
    have A: "AppendRune r = [char_of b0, char_of b1]"
      using b by (simp add: AppendRune_def b0_def b1_def)
    have r0: "0xC2 \<le> b0" "b0 \<le> 0xDF" using range2 [OF b] by (simp_all add: b0_def)
    have r1: "0x80 \<le> b1" "b1 \<le> 0xBF" using cont_byte [of r] by (simp_all add: b1_def)
    have o0: "(of_char (char_of b0) :: int) = b0" using r0 by simp
    have o1: "(of_char (char_of b1) :: int) = b1" using r1 by simp
    have "DecodeRuneInString (char_of b0 # char_of b1 # rest) = ((b0 - 192) * 64 + (b1 - 128), 2)"
      using Decode_two [of "char_of b0" "char_of b1" rest] r0 r1 by (simp only: o0 o1 if_True simp_thms)
    moreover have "(b0 - 192) * 64 + (b1 - 128) = r" by (simp add: b0_def b1_def)
    ultimately show ?thesis by (simp add: A)
  next
    case c
    define b0 where "b0 = 0xE0 + r div 4096"
    define b1 where "b1 = 0x80 + (r div 64) mod 64"
    define b2 where "b2 = 0x80 + r mod 64"
    have A: "AppendRune r = [char_of b0, char_of b1, char_of b2]"
      using c by (auto simp: AppendRune_def encode3_def MaxRune_def b0_def b1_def b2_def)
    have r0: "0xE0 \<le> b0" "b0 \<le> 0xEF" using range3 [OF c(1,2)] by (simp_all add: b0_def)
    have r1: "0x80 \<le> b1" "b1 \<le> 0xBF" using cont_byte [of "r div 64"] by (simp_all add: b1_def)
    have r2: "0x80 \<le> b2" "b2 \<le> 0xBF" using cont_byte [of r] by (simp_all add: b2_def)
    have lo: "accept_lo b0 \<le> b1"
    proof (cases "b0 = 0xE0")
      case True
      then have "r div 4096 = 0" by (simp add: b0_def)
      from range3_lo [OF c(1) this] True show ?thesis by (simp add: accept_lo_def b1_def)
    next
      case False
      with r0 r1 show ?thesis by (simp add: accept_lo_def)
    qed
    have hi: "b1 \<le> accept_hi b0"
    proof (cases "b0 = 0xED")
      case True
      then have x: "r div 4096 = 13" by (simp add: b0_def)
      then have "r \<le> 0xDFFF" by linarith
      with c(3) have "r < 0xD800" by linarith
      from range3_hi [OF this x] True show ?thesis by (simp add: accept_hi_def b1_def)
    next
      case False
      with r0 r1 show ?thesis by (simp add: accept_hi_def)
    qed
    have o0: "(of_char (char_of b0) :: int) = b0" using r0 by simp
    have o1: "(of_char (char_of b1) :: int) = b1" using r1 by simp
    have o2: "(of_char (char_of b2) :: int) = b2" using r2 by simp
    have "DecodeRuneInString (char_of b0 # char_of b1 # char_of b2 # rest)
            = ((b0 - 224) * 4096 + (b1 - 128) * 64 + (b2 - 128), 3)"
      using Decode_three [of "char_of b0" "char_of b1" "char_of b2 # rest"] r0 r1 r2 lo hi
      by (simp add: o0 o1 o2)
    moreover have "(b0 - 224) * 4096 + (b1 - 128) * 64 + (b2 - 128) = r"
      using unpack3 [of r] by (simp add: b0_def b1_def b2_def)
    ultimately show ?thesis by (simp add: A)
  next
    case d
    define b0 where "b0 = 0xF0 + r div 262144"
    define b1 where "b1 = 0x80 + (r div 4096) mod 64"
    define b2 where "b2 = 0x80 + (r div 64) mod 64"
    define b3 where "b3 = 0x80 + r mod 64"
    have A: "AppendRune r = [char_of b0, char_of b1, char_of b2, char_of b3]"
      using d by (simp add: AppendRune_def encode3_def MaxRune_def b0_def b1_def b2_def b3_def)
    have r0: "0xF0 \<le> b0" "b0 \<le> 0xF4" using range4 [OF d(1,2)] by (simp_all add: b0_def)
    have r1: "0x80 \<le> b1" "b1 \<le> 0xBF" using cont_byte [of "r div 4096"] by (simp_all add: b1_def)
    have r2: "0x80 \<le> b2" "b2 \<le> 0xBF" using cont_byte [of "r div 64"] by (simp_all add: b2_def)
    have r3: "0x80 \<le> b3" "b3 \<le> 0xBF" using cont_byte [of r] by (simp_all add: b3_def)
    have lo: "accept_lo b0 \<le> b1"
    proof (cases "b0 = 0xF0")
      case True
      then have "r div 262144 = 0" by (simp add: b0_def)
      from range4_lo [OF d(1) this] True show ?thesis by (simp add: accept_lo_def b1_def)
    next
      case False
      with r0 r1 show ?thesis by (simp add: accept_lo_def)
    qed
    have hi: "b1 \<le> accept_hi b0"
    proof (cases "b0 = 0xF4")
      case True
      then have x: "r div 262144 = 4" by (simp add: b0_def)
      from range4_hi [OF d(2) x] True show ?thesis by (simp add: accept_hi_def b1_def)
    next
      case False
      with r0 r1 show ?thesis by (simp add: accept_hi_def)
    qed
    have o0: "(of_char (char_of b0) :: int) = b0" using r0 by simp
    have o1: "(of_char (char_of b1) :: int) = b1" using r1 by simp
    have o2: "(of_char (char_of b2) :: int) = b2" using r2 by simp
    have o3: "(of_char (char_of b3) :: int) = b3" using r3 by simp
    have "DecodeRuneInString (char_of b0 # char_of b1 # char_of b2 # char_of b3 # rest)
            = ((b0 - 240) * 262144 + (b1 - 128) * 4096 + (b2 - 128) * 64 + (b3 - 128), 4)"
      using Decode_four [of "char_of b0" "char_of b1" "char_of b2" "char_of b3" rest] r0 r1 r2 r3 lo hi
      by (simp add: o0 o1 o2 o3)
    moreover have "(b0 - 240) * 262144 + (b1 - 128) * 4096 + (b2 - 128) * 64 + (b3 - 128) = r"
      using unpack4 [of r] by (simp add: b0_def b1_def b2_def b3_def)
    ultimately show ?thesis by (simp add: A)
  qed
qed

section \<open>UTF-8: encoding what was decoded\<close>

lemma accept_cont:
  "accept_lo b0 \<le> (b1::int) \<Longrightarrow> b1 \<le> accept_hi b0 \<Longrightarrow> 0x80 \<le> b1 \<and> b1 \<le> 0xBF"
  by (auto simp: accept_lo_def accept_hi_def split: if_splits)

lemma Decode_wellformed:
  assumes "s \<noteq> []" "DecodeRuneInString s \<noteq> (RuneError, 1)"
  shows "valid_rune (fst (DecodeRuneInString s))
         \<and> AppendRune (fst (DecodeRuneInString s)) = take (snd (DecodeRuneInString s)) s"
proof -
  from assms(1) obtain c0 cs where s: "s = c0 # cs" by (cases s) auto
  define b0 :: int where "b0 = of_char c0"
  have b0r: "0 \<le> b0" "b0 < 256" using byte_range [of c0] by (simp_all add: b0_def)
  have c0: "char_of b0 = c0" by (simp add: b0_def)
  consider (ascii) "b0 < 0x80" | (bad) "0x80 \<le> b0" "b0 < 0xC2 \<or> 0xF4 < b0"
    | (two) "0xC2 \<le> b0" "b0 \<le> 0xDF" | (three) "0xE0 \<le> b0" "b0 \<le> 0xEF"
    | (four) "0xF0 \<le> b0" "b0 \<le> 0xF4"
    by linarith
  then show ?thesis
  proof cases
    case ascii
    then have D: "DecodeRuneInString s = (b0, 1)"
      unfolding s b0_def by (rule Decode_ascii)
    have "AppendRune b0 = [c0]" using ascii b0r c0 by (simp add: AppendRune_def)
    moreover have "valid_rune b0" using ascii b0r by (simp add: valid_rune_def MaxRune_def)
    ultimately show ?thesis unfolding D by (simp add: s)
  next
    case bad
    then have "DecodeRuneInString s = (RuneError, 1)"
      unfolding s b0_def by (rule Decode_bad_lead)
    with assms(2) show ?thesis by simp
  next
    case two
    show ?thesis
    proof (cases cs)
      case Nil
      have "DecodeRuneInString s = (RuneError, 1)"
        unfolding s Nil using two(1) unfolding b0_def by (rule Decode_short)
      with assms(2) show ?thesis by simp
    next
      case (Cons c1 cs')
      define b1 :: int where "b1 = of_char c1"
      have c1: "char_of b1 = c1" by (simp add: b1_def)
      have D: "DecodeRuneInString s =
        (if 0x80 \<le> b1 \<and> b1 \<le> 0xBF then ((b0 - 192) * 64 + (b1 - 128), 2) else (RuneError, 1))"
        unfolding s Cons b0_def b1_def using two unfolding b0_def by (rule Decode_two)
      with assms(2) have r1: "0x80 \<le> b1" "b1 \<le> 0xBF" by (auto split: if_splits)
      define r where "r = (b0 - 192) * 64 + (b1 - 128)"
      have Dr: "DecodeRuneInString s = (r, 2)" using D r1 by (simp add: r_def)
      have yb: "0 \<le> b1 - 128" "b1 - 128 < 64" using r1 by simp_all
      have p: "r div 64 = b0 - 192" "r mod 64 = b1 - 128"
        unfolding r_def using pack2 [OF yb, of "b0 - 192"] by blast+
      have "0x80 \<le> r \<and> r \<le> 0x7FF" using two r1 unfolding r_def by (simp add: algebra_simps; linarith)
      then have rr: "0x80 \<le> r" "r \<le> 0x7FF" by simp_all
      have "AppendRune r = [char_of (0xC0 + r div 64), char_of (0x80 + r mod 64)]"
        using rr by (simp add: AppendRune_def)
      then have "AppendRune r = [c0, c1]" using c0 c1 by (simp add: p)
      moreover have "valid_rune r" using rr by (simp add: valid_rune_def MaxRune_def)
      ultimately show ?thesis unfolding Dr by (simp add: s Cons)
    qed
  next
    case three
    show ?thesis
    proof (cases "length cs < 2")
      case True
      have "DecodeRuneInString s = (RuneError, 1)"
        unfolding s using three True unfolding b0_def by (rule Decode_three_short)
      with assms(2) show ?thesis by simp
    next
      case False
      then obtain c1 c2 cs' where cs: "cs = c1 # c2 # cs'"
        by (cases cs; cases "tl cs") auto
      define b1 :: int where "b1 = of_char c1"
      define b2 :: int where "b2 = of_char c2"
      have c1: "char_of b1 = c1" by (simp add: b1_def)
      have c2: "char_of b2 = c2" by (simp add: b2_def)
      have "DecodeRuneInString (c0 # c1 # c2 # cs') =
        (if accept_lo (of_char c0) \<le> (of_char c1 :: int) \<and> (of_char c1 :: int) \<le> accept_hi (of_char c0)
            \<and> (c2 # cs') \<noteq> [] \<and> 0x80 \<le> (of_char (hd (c2 # cs')) :: int)
            \<and> (of_char (hd (c2 # cs')) :: int) \<le> 0xBF
         then ((of_char c0 - 224) * 4096 + (of_char c1 - 128) * 64 + (of_char (hd (c2 # cs')) - 128), 3)
         else (RuneError, 1))"
        using three unfolding b0_def by (rule Decode_three)
      then have D: "DecodeRuneInString s =
        (if accept_lo b0 \<le> b1 \<and> b1 \<le> accept_hi b0 \<and> 0x80 \<le> b2 \<and> b2 \<le> 0xBF
         then ((b0 - 224) * 4096 + (b1 - 128) * 64 + (b2 - 128), 3) else (RuneError, 1))"
        by (simp add: s cs b0_def b1_def b2_def)
      with assms(2) have a: "accept_lo b0 \<le> b1" "b1 \<le> accept_hi b0" and r2: "0x80 \<le> b2" "b2 \<le> 0xBF"
        by (auto split: if_splits)
      have r1: "0x80 \<le> b1" "b1 \<le> 0xBF" using accept_cont [OF a] by simp_all
      define r where "r = (b0 - 224) * 4096 + (b1 - 128) * 64 + (b2 - 128)"
      have Dr: "DecodeRuneInString s = (r, 3)" using D a r2 by (simp add: r_def)
      have yb: "0 \<le> b1 - 128" "b1 - 128 < 64" using r1 by simp_all
      have zb: "0 \<le> b2 - 128" "b2 - 128 < 64" using r2 by simp_all
      have p: "r div 4096 = b0 - 224" "(r div 64) mod 64 = b1 - 128" "r mod 64 = b2 - 128"
        unfolding r_def
        by (rule pack3 [OF yb zb])+
      have lo: "0x800 \<le> r"
      proof (cases "b0 = 0xE0")
        case True
        with a(1) have "0xA0 \<le> b1" by (simp add: accept_lo_def)
        with True r2 show ?thesis unfolding r_def by (simp add: algebra_simps; linarith)
      next
        case False
        with three r1 r2 show ?thesis unfolding r_def by (simp add: algebra_simps; linarith)
      qed
      have hi: "r \<le> 0xFFFF" using three r1 r2 unfolding r_def by (simp add: algebra_simps; linarith)
      have ns: "\<not> (0xD800 \<le> r \<and> r \<le> 0xDFFF)"
      proof (cases "b0 = 0xED")
        case True
        with a(2) have "b1 \<le> 0x9F" by (simp add: accept_hi_def)
        with True r2 have "r < 0xD800" unfolding r_def by (simp add: algebra_simps; linarith)
        then show ?thesis by simp
      next
        case False
        then consider "b0 \<le> 0xEC" | "0xEE \<le> b0" by linarith
        then show ?thesis
        proof cases
          case 1
          with r1 r2 have "r < 0xD800" unfolding r_def by (simp add: algebra_simps; linarith)
          then show ?thesis by simp
        next
          case 2
          with r1 r2 have "0xDFFF < r" unfolding r_def by (simp add: algebra_simps; linarith)
          then show ?thesis by simp
        qed
      qed
      have "AppendRune r = encode3 r"
        using lo hi ns by (auto simp: AppendRune_def MaxRune_def)
      then have "AppendRune r = [c0, c1, c2]"
        using c0 c1 c2 by (simp add: encode3_def p)
      moreover have "valid_rune r" using lo hi ns by (simp add: valid_rune_def MaxRune_def)
      ultimately show ?thesis unfolding Dr by (simp add: s cs)
    qed
  next
    case four
    show ?thesis
    proof (cases "length cs < 3")
      case True
      have "DecodeRuneInString s = (RuneError, 1)"
        unfolding s using four True unfolding b0_def by (rule Decode_four_short)
      with assms(2) show ?thesis by simp
    next
      case False
      then obtain c1 c2 c3 cs' where cs: "cs = c1 # c2 # c3 # cs'"
        by (cases cs; cases "tl cs"; cases "tl (tl cs)") auto
      define b1 :: int where "b1 = of_char c1"
      define b2 :: int where "b2 = of_char c2"
      define b3 :: int where "b3 = of_char c3"
      have c1: "char_of b1 = c1" by (simp add: b1_def)
      have c2: "char_of b2 = c2" by (simp add: b2_def)
      have c3: "char_of b3 = c3" by (simp add: b3_def)
      have D: "DecodeRuneInString s =
        (if accept_lo b0 \<le> b1 \<and> b1 \<le> accept_hi b0 \<and> 0x80 \<le> b2 \<and> b2 \<le> 0xBF
             \<and> 0x80 \<le> b3 \<and> b3 \<le> 0xBF
         then ((b0 - 240) * 262144 + (b1 - 128) * 4096 + (b2 - 128) * 64 + (b3 - 128), 4)
         else (RuneError, 1))"
        unfolding s cs b0_def b1_def b2_def b3_def using four unfolding b0_def by (rule Decode_four)
      with assms(2) have a: "accept_lo b0 \<le> b1" "b1 \<le> accept_hi b0" and r2: "0x80 \<le> b2" "b2 \<le> 0xBF"
        and r3: "0x80 \<le> b3" "b3 \<le> 0xBF"
        by (auto split: if_splits)
      have r1: "0x80 \<le> b1" "b1 \<le> 0xBF" using accept_cont [OF a] by simp_all
      define r where "r = (b0 - 240) * 262144 + (b1 - 128) * 4096 + (b2 - 128) * 64 + (b3 - 128)"
      have Dr: "DecodeRuneInString s = (r, 4)" using D a r2 r3 by (simp add: r_def)
      have xb: "0 \<le> b1 - 128" "b1 - 128 < 64" using r1 by simp_all
      have yb: "0 \<le> b2 - 128" "b2 - 128 < 64" using r2 by simp_all
      have zb: "0 \<le> b3 - 128" "b3 - 128 < 64" using r3 by simp_all
      have p: "r div 262144 = b0 - 240" "(r div 4096) mod 64 = b1 - 128"
        "(r div 64) mod 64 = b2 - 128" "r mod 64 = b3 - 128"
        unfolding r_def
        by (rule pack4 [OF xb yb zb])+
      have lo: "0x10000 \<le> r"
      proof (cases "b0 = 0xF0")
        case True
        with a(1) have "0x90 \<le> b1" by (simp add: accept_lo_def)
        with True r2 r3 show ?thesis unfolding r_def by (simp add: algebra_simps; linarith)
      next
        case False
        with four r1 r2 r3 show ?thesis unfolding r_def by (simp add: algebra_simps; linarith)
      qed
      have hi: "r \<le> 0x10FFFF"
      proof (cases "b0 = 0xF4")
        case True
        with a(2) have "b1 \<le> 0x8F" by (simp add: accept_hi_def)
        with True r2 r3 show ?thesis unfolding r_def by (simp add: algebra_simps; linarith)
      next
        case False
        with four r1 r2 r3 show ?thesis unfolding r_def by (simp add: algebra_simps; linarith)
      qed
      have "AppendRune r = [char_of (0xF0 + r div 262144), char_of (0x80 + (r div 4096) mod 64),
           char_of (0x80 + (r div 64) mod 64), char_of (0x80 + r mod 64)]"
        using lo hi by (simp add: AppendRune_def MaxRune_def)
      then have "AppendRune r = [c0, c1, c2, c3]"
        using c0 c1 c2 c3 by (simp add: p)
      moreover have "valid_rune r" using lo hi by (simp add: valid_rune_def MaxRune_def)
      ultimately show ?thesis unfolding Dr by (simp add: s cs)
    qed
  qed
qed

lemma Decode_valid: "valid_rune (fst (DecodeRuneInString s))"
proof (cases "s = [] \<or> DecodeRuneInString s = (RuneError, 1)")
  case True
  then show ?thesis
    by (auto simp: valid_rune_def RuneError_def MaxRune_def DecodeRuneInString.simps(1))
next
  case False
  then show ?thesis using Decode_wellformed [of s] by simp
qed

section \<open>The runes of a string\<close>

lemma rangeFrom_shift: "map snd (rangeFrom i s) = map snd (rangeFrom j s)"
proof (induction i s arbitrary: j rule: rangeFrom.induct)
  case (1 i s)
  show ?case
  proof (cases "s = []")
    case True
    then show ?thesis by (simp add: rangeFrom.simps)
  next
    case False
    from "1.IH" [OF False]
    have "map snd (rangeFrom (i + snd (DecodeRuneInString s)) (drop (snd (DecodeRuneInString s)) s))
        = map snd (rangeFrom (j + snd (DecodeRuneInString s)) (drop (snd (DecodeRuneInString s)) s))" .
    with False show ?thesis
      by (simp add: rangeFrom.simps [of i s] rangeFrom.simps [of j s])
  qed
qed

lemma runes_Nil: "runes [] = []"
  by (simp add: runes_def rangeString_def rangeFrom.simps)

lemma runes_step:
  "s \<noteq> [] \<Longrightarrow> runes s = fst (DecodeRuneInString s) # runes (drop (snd (DecodeRuneInString s)) s)"
  using rangeFrom_shift [of "snd (DecodeRuneInString s)" "drop (snd (DecodeRuneInString s)) s" 0]
  by (simp add: runes_def rangeString_def rangeFrom.simps [of 0 s])

lemma AppendRune_nonempty: "AppendRune r \<noteq> []"
  by (simp add: AppendRune_def encode3_def)

lemma runes_AppendRune:
  assumes "valid_rune r"
  shows "runes (AppendRune r @ rest) = r # runes rest"
proof -
  have "AppendRune r @ rest \<noteq> []" using AppendRune_nonempty by simp
  from runes_step [OF this] show ?thesis
    by (simp add: Decode_AppendRune [OF assms])
qed

lemma runes_string_of_runes:
  "list_all valid_rune rs \<Longrightarrow> runes (string_of_runes rs) = rs"
  by (induction rs) (simp_all add: string_of_runes_def runes_Nil runes_AppendRune)

lemma runes_valid: "list_all valid_rune (runes s)"
proof (induction s rule: ValidString.induct)
  case (1 s)
  show ?case
  proof (cases "s = []")
    case True
    then show ?thesis by (simp add: runes_Nil)
  next
    case False
    with "1.IH" show ?thesis
      by (simp add: runes_step [OF False] Decode_valid)
  qed
qed

lemma string_of_runes_runes:
  "ValidString s \<Longrightarrow> string_of_runes (runes s) = s"
proof (induction s rule: ValidString.induct)
  case (1 s)
  show ?case
  proof (cases "s = []")
    case True
    then show ?thesis by (simp add: runes_Nil string_of_runes_def)
  next
    case False
    from "1.prems" False have ok: "DecodeRuneInString s \<noteq> (RuneError, 1)"
      and rest: "ValidString (drop (snd (DecodeRuneInString s)) s)"
      by (simp_all add: ValidString.simps [of s])
    from "1.IH" [OF False rest]
    have "string_of_runes (runes (drop (snd (DecodeRuneInString s)) s)) = drop (snd (DecodeRuneInString s)) s" .
    moreover have "AppendRune (fst (DecodeRuneInString s)) = take (snd (DecodeRuneInString s)) s"
      using Decode_wellformed [OF False ok] by simp
    ultimately show ?thesis
      by (simp add: runes_step [OF False] string_of_runes_def)
  qed
qed


section \<open>Evaluating the range loop\<close>

lemma rangeFrom_Nil: "rangeFrom i [] = []"
  by (simp add: rangeFrom.simps)

lemma rangeFrom_Cons:
  "rangeFrom i (c # cs) =
     (i, fst (DecodeRuneInString (c # cs)))
       # rangeFrom (i + snd (DecodeRuneInString (c # cs)))
           (drop (snd (DecodeRuneInString (c # cs))) (c # cs))"
  by (subst rangeFrom.simps) simp

section \<open>ConvertCase: the properties of the style dispatch\<close>

text \<open>
  Claim C1.  The tokenizer splits \<open>myVarName123\<close> into \<open>my\<close>, \<open>Var\<close>, \<open>Name123\<close>;
  \<open>ConvertCase\<close> renders that input in style \<open>snake_case\<close> as \<open>my_var_name123\<close>, and
  renders \<open>my_var_name123\<close> in style \<open>camelCase\<close> as \<open>myVarName123\<close> again.  The input
  is ASCII, so this holds whatever the Unicode tables are.
\<close>

theorem round_trip_myVarName123:
  "splitWords U ''myVarName123'' = [''my'', ''Var'', ''Name123'']
   \<and> ConvertCase U ''myVarName123'' ''snake_case'' = ''my_var_name123''
   \<and> ConvertCase U ''my_var_name123'' ''camelCase'' = ''myVarName123''"
  by code_simp

text \<open>
  Claim C6.  A style string that is none of the five recognised ones makes \<open>ConvertCase\<close>
  return its input unchanged; the model has no error value because the function has no
  failing branch.
\<close>

theorem ConvertCase_unknown_style:
  assumes "caseType \<notin> {''camelCase'', ''PascalCase'', ''snake_case'', ''kebab-case'',
                        ''CONSTANT_CASE''}"
  shows "ConvertCase U text caseType = text"
  using assms by (simp add: ConvertCase_def)

theorem ConvertCase_unknown_style_witness:
  "''unknown-style'' \<notin> {''camelCase'', ''PascalCase'', ''snake_case'', ''kebab-case'',
                          ''CONSTANT_CASE''}
   \<and> ConvertCase sample_tables ''abc'' ''unknown-style'' = ''abc''"
  using ConvertCase_unknown_style [of "''unknown-style''" sample_tables "''abc''"] by simp

subsection \<open>Inputs without word characters\<close>

definition isWordRune :: "tables \<Rightarrow> rune \<Rightarrow> bool" where
  "isWordRune U r = (IsLetter U r \<or> IsNumber U r)"

lemma foldl_splitWords_step_no_word:
  "list_all (\<lambda>ir. \<not> isWordRune U (snd ir)) irs \<Longrightarrow>
     foldl (splitWords_step U s) ([], []) irs = ([], [])"
  by (induction irs) (auto simp: splitWords_step_def flush_def isWordRune_def)

lemma splitWords_no_word:
  assumes "list_all (\<lambda>r. \<not> isWordRune U r) (runes s)"
  shows "splitWords U s = []"
proof -
  from assms have "list_all (\<lambda>ir. \<not> isWordRune U (snd ir)) (rangeString s)"
    by (simp add: runes_def list_all_iff)
  then show ?thesis
    by (simp add: splitWords_def foldl_splitWords_step_no_word flush_def)
qed

text \<open>
  Claim C7.  When no rune of the input is a word character, that is, none satisfies
  \<^verbatim>\<open>unicode.IsLetter\<close> or \<^verbatim>\<open>unicode.IsNumber\<close> (the test the tokenizer applies to
  recognise letters and digits), the tokenizer yields no token and \<open>ConvertCase\<close> returns
  the empty string for each of the five styles.
\<close>

theorem ConvertCase_no_word_characters:
  assumes "list_all (\<lambda>r. \<not> isWordRune U r) (runes s)"
    and "caseType \<in> {''camelCase'', ''PascalCase'', ''snake_case'', ''kebab-case'',
                     ''CONSTANT_CASE''}"
  shows "splitWords U s = [] \<and> ConvertCase U s caseType = []"
proof -
  have w: "splitWords U s = []"
    using assms(1) by (rule splitWords_no_word)
  have "ConvertCase U s caseType = []"
    using assms(2)
    by (auto simp: ConvertCase_def toCamelCase_def toPascalCase_def toSnakeCase_def
        toKebabCase_def toConstantCase_def w)
  with w show ?thesis by simp
qed

theorem ConvertCase_no_word_characters_witness:
  "list_all (\<lambda>r. \<not> isWordRune sample_tables r) (runes ''!!!   ---'')
   \<and> splitWords sample_tables ''!!!   ---'' = []
   \<and> ConvertCase sample_tables ''!!!   ---'' ''camelCase'' = []
   \<and> ConvertCase sample_tables ''!!!   ---'' ''PascalCase'' = []
   \<and> ConvertCase sample_tables ''!!!   ---'' ''snake_case'' = []
   \<and> ConvertCase sample_tables ''!!!   ---'' ''kebab-case'' = []
   \<and> ConvertCase sample_tables ''!!!   ---'' ''CONSTANT_CASE'' = []"
proof -
  have h: "list_all (\<lambda>r. \<not> isWordRune sample_tables r) (runes ''!!!   ---'')"
    by code_simp
  show ?thesis
    using h
      ConvertCase_no_word_characters [OF h, of "''camelCase''"]
      ConvertCase_no_word_characters [OF h, of "''PascalCase''"]
      ConvertCase_no_word_characters [OF h, of "''snake_case''"]
      ConvertCase_no_word_characters [OF h, of "''kebab-case''"]
      ConvertCase_no_word_characters [OF h, of "''CONSTANT_CASE''"]
    by simp
qed

section \<open>RemoveDuplicateLines\<close>

text \<open>
  What the specification asks for, in its own words: of the lines, exactly those are kept
  that do not occur at an earlier index, in their original order.
\<close>

definition first_occurrences :: "'a list \<Rightarrow> 'a list" where
  "first_occurrences xs =
     map (\<lambda>i. xs ! i) (filter (\<lambda>i. xs ! i \<notin> set (take i xs)) [0..<length xs])"

lemma first_occurrences_snoc:
  "first_occurrences (xs @ [x]) = first_occurrences xs @ (if x \<in> set xs then [] else [x])"
proof -
  define ys where "ys = xs @ [x]"
  define n where "n = length xs"
  have keep: "filter (\<lambda>i. ys ! i \<notin> set (take i ys)) [0..<n]
                = filter (\<lambda>i. xs ! i \<notin> set (take i xs)) [0..<n]"
    by (rule filter_cong [OF refl]) (simp add: ys_def n_def nth_append)
  have pick: "map (\<lambda>i. ys ! i) (filter (\<lambda>i. xs ! i \<notin> set (take i xs)) [0..<n])
                = map (\<lambda>i. xs ! i) (filter (\<lambda>i. xs ! i \<notin> set (take i xs)) [0..<n])"
    by (rule map_cong [OF refl]) (simp add: ys_def n_def nth_append)
  have last: "ys ! n = x" "take n ys = xs"
    by (simp_all add: ys_def n_def)
  have "first_occurrences ys
          = map (\<lambda>i. ys ! i) (filter (\<lambda>i. ys ! i \<notin> set (take i ys)) ([0..<n] @ [n]))"
    by (simp add: first_occurrences_def ys_def n_def)
  also have "\<dots> = map (\<lambda>i. ys ! i) (filter (\<lambda>i. ys ! i \<notin> set (take i ys)) [0..<n])
                   @ (if x \<in> set xs then [] else [x])"
    by (simp add: last)
  also have "\<dots> = first_occurrences xs @ (if x \<in> set xs then [] else [x])"
    using keep pick by (simp add: first_occurrences_def n_def)
  finally show ?thesis
    by (simp only: ys_def)
qed

text \<open>The loop invariant: \<^verbatim>\<open>seen\<close> holds the lines read so far, \<^verbatim>\<open>result\<close> their first occurrences.\<close>

lemma dedup_loop:
  "foldl dedup_step (Map.empty, []) ls =
     ((\<lambda>l. if l \<in> set ls then Some True else None), first_occurrences ls)"
proof (induction ls rule: rev_induct)
  case Nil
  show ?case by (simp add: first_occurrences_def)
next
  case (snoc l ls)
  show ?case
    by (simp add: snoc.IH) (auto simp: dedup_step_def first_occurrences_snoc fun_eq_iff)
qed

text \<open>
  Claim C9.  \<open>RemoveDuplicateLines\<close> splits its input at every newline, keeps of the lines
  exactly the first occurrences under equality of the byte strings, in their original
  order, and joins them with newlines; the input \<open>a\<newline>b\<newline>a\<newline>c\<newline>b\<close> (with line breaks between
  the letters) gives \<open>a\<newline>b\<newline>c\<close>.
\<close>

theorem RemoveDuplicateLines_first_occurrences:
  "RemoveDuplicateLines text = Join (first_occurrences (Split text ''\<newline>'')) ''\<newline>''
   \<and> RemoveDuplicateLines ''a\<newline>b\<newline>a\<newline>c\<newline>b'' = ''a\<newline>b\<newline>c''"
proof
  show "RemoveDuplicateLines text = Join (first_occurrences (Split text ''\<newline>'')) ''\<newline>''"
    by (simp add: RemoveDuplicateLines_def dedup_loop)
  show "RemoveDuplicateLines ''a\<newline>b\<newline>a\<newline>c\<newline>b'' = ''a\<newline>b\<newline>c''"
    by code_simp
qed

section \<open>ReverseText\<close>

lemma reverse_loop_length: "length (reverse_loop rs i j) = length rs"
proof (induction rs i j rule: reverse_loop.induct)
  case (1 rs i j)
  show ?case
  proof (cases "i < j")
    case True
    with "1.IH" show ?thesis by (simp add: reverse_loop.simps [of rs i j])
  next
    case False
    then show ?thesis by (simp add: reverse_loop.simps [of rs i j])
  qed
qed

lemma reverse_loop_nth:
  "0 \<le> i \<Longrightarrow> j < int (length rs) \<Longrightarrow> k < length rs \<Longrightarrow>
     reverse_loop rs i j ! k =
       (if i \<le> int k \<and> int k \<le> j then rs ! nat (i + j - int k) else rs ! k)"
proof (induction rs i j arbitrary: k rule: reverse_loop.induct)
  case (1 rs i j)
  show ?case
  proof (cases "i < j")
    case False
    have "i \<le> int k \<and> int k \<le> j \<Longrightarrow> nat (i + j - int k) = k"
      using False by linarith
    then show ?thesis using False by (simp add: reverse_loop.simps [of rs i j])
  next
    case True
    define rs' where "rs' = rs[nat i := rs ! nat j, nat j := rs ! nat i]"
    have len: "length rs' = length rs" by (simp add: rs'_def)
    have ni: "nat i < length rs" "nat j < length rs" "nat i \<noteq> nat j"
      using True "1.prems" by auto
    have step: "reverse_loop rs i j = reverse_loop rs' (i + 1) (j - 1)"
      using True by (simp add: reverse_loop.simps [of rs i j] rs'_def)
    have IH: "reverse_loop rs' (i + 1) (j - 1) ! k =
       (if i + 1 \<le> int k \<and> int k \<le> j - 1 then rs' ! nat (i + 1 + (j - 1) - int k) else rs' ! k)"
      using "1.IH" [OF True, of k] "1.prems" len by (simp add: rs'_def)
    have nth': "\<And>m. m < length rs \<Longrightarrow>
        rs' ! m = (if m = nat j then rs ! nat i else if m = nat i then rs ! nat j else rs ! m)"
      using ni by (simp add: rs'_def nth_list_update)
    consider (inner) "i + 1 \<le> int k" "int k \<le> j - 1" | (lo) "int k = i" | (hi) "int k = j"
      | (out) "int k < i \<or> j < int k"
      by linarith
    then show ?thesis
    proof cases
      case inner
      define m where "m = nat (i + j - int k)"
      have m: "m < length rs" "m \<noteq> nat i" "m \<noteq> nat j"
        using inner "1.prems" unfolding m_def by linarith+
      have "reverse_loop rs i j ! k = rs' ! m"
        unfolding step IH using inner by (simp add: m_def)
      also have "\<dots> = rs ! m" using nth' [OF m(1)] m by simp
      finally show ?thesis using inner by (simp add: m_def)
    next
      case lo
      then have k: "k = nat i" by simp
      have "reverse_loop rs i j ! k = rs' ! k"
        unfolding step IH using lo by simp
      also have "\<dots> = rs ! nat j" using nth' [OF "1.prems"(3)] ni k by simp
      finally show ?thesis using lo True by simp
    next
      case hi
      then have k: "k = nat j" by simp
      have "reverse_loop rs i j ! k = rs' ! k"
        unfolding step IH using hi by simp
      also have "\<dots> = rs ! nat i" using nth' [OF "1.prems"(3)] ni k by simp
      finally show ?thesis using hi True by simp
    next
      case out
      then have k: "k \<noteq> nat i" "k \<noteq> nat j" using "1.prems" True by linarith+
      have "reverse_loop rs i j ! k = rs' ! k"
        unfolding step IH using out by auto
      also have "\<dots> = rs ! k" using nth' [OF "1.prems"(3)] k by simp
      finally show ?thesis using out by auto
    qed
  qed
qed

lemma reverse_loop_rev: "reverse_loop rs 0 (int (length rs) - 1) = rev rs"
proof (rule nth_equalityI)
  show "length (reverse_loop rs 0 (int (length rs) - 1)) = length (rev rs)"
    by (simp add: reverse_loop_length)
next
  fix k assume "k < length (reverse_loop rs 0 (int (length rs) - 1))"
  then have k: "k < length rs" by (simp add: reverse_loop_length)
  have "reverse_loop rs 0 (int (length rs) - 1) ! k = rs ! nat (0 + (int (length rs) - 1) - int k)"
    using reverse_loop_nth [of 0 "int (length rs) - 1" rs k] k by simp
  also have "nat (0 + (int (length rs) - 1) - int k) = length rs - Suc k"
    using k by linarith
  finally show "reverse_loop rs 0 (int (length rs) - 1) ! k = rev rs ! k"
    using k by (simp add: rev_nth)
qed

lemma ReverseText_rev: "ReverseText s = string_of_runes (rev (runes s))"
  by (simp add: ReverseText_def Let_def reverse_loop_rev)

text \<open>
  Claim C8, as the code has it.  For every string that is valid UTF-8, reversing twice gives
  the string back, and the runes of the reversed string are the runes of the string in
  reverse order: reversal works on code points and corrupts none.  The hypothesis is
  needed: the conversion \<^verbatim>\<open>[]rune(text)\<close> turns every byte that is not part of a valid
  encoding into \<open>RuneError\<close>, which is written back as three bytes.
\<close>

theorem ReverseText_involution_valid:
  assumes "ValidString s"
  shows "ReverseText (ReverseText s) = s \<and> runes (ReverseText s) = rev (runes s)"
proof -
  have v: "list_all valid_rune (rev (runes s))"
    using runes_valid [of s] by (simp add: list_all_iff)
  have r: "runes (ReverseText s) = rev (runes s)"
    unfolding ReverseText_rev by (rule runes_string_of_runes [OF v])
  have "ReverseText (ReverseText s) = string_of_runes (rev (runes (ReverseText s)))"
    by (rule ReverseText_rev)
  also have "\<dots> = string_of_runes (runes s)" by (simp add: r)
  also have "\<dots> = s" by (rule string_of_runes_runes [OF assms])
  finally show ?thesis using r by simp
qed

theorem ReverseText_involution_valid_witness:
  "ValidString [CHR ''a'', CHR 0xC3, CHR 0xA9, CHR 0xE2, CHR 0x82, CHR 0xAC]
   \<and> ReverseText (ReverseText [CHR ''a'', CHR 0xC3, CHR 0xA9, CHR 0xE2, CHR 0x82, CHR 0xAC])
       = [CHR ''a'', CHR 0xC3, CHR 0xA9, CHR 0xE2, CHR 0x82, CHR 0xAC]
   \<and> runes (ReverseText [CHR ''a'', CHR 0xC3, CHR 0xA9, CHR 0xE2, CHR 0x82, CHR 0xAC])
       = rev (runes [CHR ''a'', CHR 0xC3, CHR 0xA9, CHR 0xE2, CHR 0x82, CHR 0xAC])"
proof -
  have h: "ValidString [CHR ''a'', CHR 0xC3, CHR 0xA9, CHR 0xE2, CHR 0x82, CHR 0xAC]"
    by code_simp
  show ?thesis
    using h ReverseText_involution_valid [OF h] by simp
qed

text \<open>
  The claim as stated, for every string, fails on the one-byte string \<open>0xFF\<close>: reversing
  it twice gives the three bytes \<open>0xEF 0xBF 0xBD\<close>.
\<close>

theorem ReverseText_not_involution: "ReverseText (ReverseText [CHR 0xFF]) \<noteq> [CHR 0xFF]"
  by code_simp

section \<open>The tokenizer: where a camelCase hump splits\<close>

text \<open>Two neighbours in the list of the range loop: where they lie in the string.\<close>

lemma rangeFrom_head:
  assumes "rangeFrom k t = (i, l) # rest"
  shows "t \<noteq> []" and "i = k" and "l = fst (DecodeRuneInString t)"
    and "rest = rangeFrom (k + snd (DecodeRuneInString t)) (drop (snd (DecodeRuneInString t)) t)"
proof -
  show t: "t \<noteq> []" using assms by (auto simp: rangeFrom.simps [of k "[]"])
  from assms t show "i = k" and "l = fst (DecodeRuneInString t)"
    and "rest = rangeFrom (k + snd (DecodeRuneInString t)) (drop (snd (DecodeRuneInString t)) t)"
    by (auto simp: rangeFrom.simps [of k t])
qed

lemma rangeFrom_split:
  "rangeFrom k t = pre @ (i, l) # rest \<Longrightarrow>
     k \<le> i \<and> i - k < length t \<and> rangeFrom i (drop (i - k) t) = (i, l) # rest"
proof (induction pre arbitrary: k t)
  case Nil
  then have "rangeFrom k t = (i, l) # rest" by simp
  from rangeFrom_head [OF this] this show ?case by simp
next
  case (Cons p pre)
  then have t: "t \<noteq> []" by (auto simp: rangeFrom.simps [of k "[]"])
  define w where "w = snd (DecodeRuneInString t)"
  have w: "1 \<le> w" "w \<le> length t" using DecodeRuneInString_width [OF t] by (simp_all add: w_def)
  from Cons.prems t have "rangeFrom (k + w) (drop w t) = pre @ (i, l) # rest"
    by (simp add: rangeFrom.simps [of k t] w_def)
  from Cons.IH [OF this]
  have a: "k + w \<le> i" and b: "i - (k + w) < length (drop w t)"
    and c: "rangeFrom i (drop (i - (k + w)) (drop w t)) = (i, l) # rest"
    by blast+
  have e: "i - (k + w) + w = i - k" using a by simp
  have "drop (i - (k + w)) (drop w t) = drop (i - k) t"
    unfolding drop_drop e ..
  with c have "rangeFrom i (drop (i - k) t) = (i, l) # rest" by simp
  moreover have "k \<le> i" using a by simp
  moreover have "i - k < length t" using b e w by simp
  ultimately show ?case by blast
qed

lemma rangeString_adjacent:
  assumes "rangeString s = pre @ (i, l) # (j, u) # post"
  shows "i < length s" and "DecodeRuneInString (drop i s) = (l, j - i)" and "i < j" and "j < length s"
proof -
  define t where "t = drop i s"
  define w where "w = snd (DecodeRuneInString t)"
  from rangeFrom_split [of 0 s pre i l "(j, u) # post"] assms
  have i: "i < length s" and r: "rangeFrom i t = (i, l) # (j, u) # post"
    by (simp_all add: rangeString_def t_def)
  show "i < length s" by fact
  from rangeFrom_head [OF r]
  have ne: "t \<noteq> []" and l: "l = fst (DecodeRuneInString t)"
    and rest: "(j, u) # post = rangeFrom (i + w) (drop w t)"
    by (simp_all add: w_def)
  from rangeFrom_head [OF rest [symmetric]]
  have ne2: "drop w t \<noteq> []" and j: "j = i + w" by simp_all
  have w: "1 \<le> w" using DecodeRuneInString_width [OF ne] by (simp add: w_def)
  show "DecodeRuneInString (drop i s) = (l, j - i)"
    using l j by (simp add: t_def [symmetric] w_def prod_eq_iff)
  show "i < j" using j w by simp
  show "j < length s" using ne2 j by (simp add: t_def add.commute)
qed

text \<open>How the loop of \<^verbatim>\<open>splitWords\<close> goes on from a state: completed words stay, and a non-empty
  accumulator becomes a prefix of the next word.\<close>

lemma flush_words: "\<exists>more. fst (flush (ws, cur)) = ws @ more"
  by (simp add: flush_def)

lemma splitWords_step_cases:
  "splitWords_step U s (ws, cur) (i, r) = (ws, cur @ AppendRune r)
   \<or> splitWords_step U s (ws, cur) (i, r) = (ws @ [cur], AppendRune r) \<and> cur \<noteq> []
   \<or> splitWords_step U s (ws, cur) (i, r) = (ws @ [cur], []) \<and> cur \<noteq> []
   \<or> splitWords_step U s (ws, cur) (i, r) = (ws, []) \<and> cur = []"
  by (auto simp: splitWords_step_def flush_def)

lemma loop_keeps_words:
  "\<exists>more. fst (flush (foldl (splitWords_step U s) (ws, cur) irs)) = ws @ more"
proof (induction irs arbitrary: ws cur)
  case Nil
  show ?case by (simp add: flush_def)
next
  case (Cons ir irs)
  obtain i r where ir: "ir = (i, r)" by (cases ir)
  obtain ws' cur' where st: "splitWords_step U s (ws, cur) (i, r) = (ws', cur')"
    by (cases "splitWords_step U s (ws, cur) (i, r)")
  have "\<exists>m. ws' = ws @ m" using splitWords_step_cases [of U s ws cur i r] st by auto
  then obtain m where m: "ws' = ws @ m" ..
  from Cons.IH [of ws' cur'] obtain more where
    "fst (flush (foldl (splitWords_step U s) (ws', cur') irs)) = ws' @ more" ..
  then show ?case by (simp add: ir st m)
qed

lemma loop_extends_word:
  "cur \<noteq> [] \<Longrightarrow>
     \<exists>ext more. fst (flush (foldl (splitWords_step U s) (ws, cur) irs)) = ws @ (cur @ ext) # more"
proof (induction irs arbitrary: ws cur)
  case Nil
  then show ?case by (simp add: flush_def)
next
  case (Cons ir irs)
  obtain i r where ir: "ir = (i, r)" by (cases ir)
  from splitWords_step_cases [of U s ws cur i r] Cons.prems
  consider (app) "splitWords_step U s (ws, cur) (i, r) = (ws, cur @ AppendRune r)"
    | (new) "splitWords_step U s (ws, cur) (i, r) = (ws @ [cur], AppendRune r)"
    | (sep) "splitWords_step U s (ws, cur) (i, r) = (ws @ [cur], [])"
    by auto
  then show ?case
  proof cases
    case app
    have "cur @ AppendRune r \<noteq> []" using Cons.prems by simp
    from Cons.IH [OF this, of ws] obtain ext more where
      "fst (flush (foldl (splitWords_step U s) (ws, cur @ AppendRune r) irs))
         = ws @ ((cur @ AppendRune r) @ ext) # more" by blast
    then have "fst (flush (foldl (splitWords_step U s) (ws, cur) (ir # irs)))
         = ws @ (cur @ (AppendRune r @ ext)) # more"
      by (simp add: ir app)
    then show ?thesis by blast
  next
    case new
    from loop_keeps_words [of U s "ws @ [cur]" "AppendRune r" irs] obtain more where
      "fst (flush (foldl (splitWords_step U s) (ws @ [cur], AppendRune r) irs)) = (ws @ [cur]) @ more" ..
    then have "fst (flush (foldl (splitWords_step U s) (ws, cur) (ir # irs))) = ws @ (cur @ []) # more"
      by (simp add: ir new)
    then show ?thesis by blast
  next
    case sep
    from loop_keeps_words [of U s "ws @ [cur]" "[]" irs] obtain more where
      "fst (flush (foldl (splitWords_step U s) (ws @ [cur], []) irs)) = (ws @ [cur]) @ more" ..
    then have "fst (flush (foldl (splitWords_step U s) (ws, cur) (ir # irs))) = ws @ (cur @ []) # more"
      by (simp add: ir sep)
    then show ?thesis by blast
  qed
qed


lemma properties_ascii_upper: "0x41 \<le> r \<Longrightarrow> r \<le> 0x5A \<Longrightarrow> properties r = pLu"
  by (auto simp: properties_def)

lemma properties_ascii_lower: "0x61 \<le> r \<Longrightarrow> r \<le> 0x7A \<Longrightarrow> properties r = pLl"
  by (auto simp: properties_def)

lemma Decode_ascii_rune:
  assumes "t \<noteq> []" "DecodeRuneInString t = (r, w)" "r < 0x80"
  shows "w = 1 \<and> (of_char (hd t) :: int) = r"
proof -
  have ok: "DecodeRuneInString t \<noteq> (RuneError, 1)"
    using assms(2,3) by (simp add: RuneError_def)
  from Decode_wellformed [OF assms(1) ok] assms(2)
  have v: "valid_rune r" and a: "AppendRune r = take w t" by simp_all
  have r: "0 \<le> r" "r \<le> 0x7F" using v assms(3) by (simp_all add: valid_rune_def)
  then have e: "take w t = [char_of r]" using a by (simp add: AppendRune_def)
  have "w \<le> length t" using DecodeRuneInString_width [OF assms(1)] assms(2) by simp
  then have "length (take w t) = w" by simp
  with e have w: "w = 1" by simp
  from e w assms(1) have "hd t = char_of r" by (cases t) simp_all
  with w r show ?thesis by simp
qed

text \<open>
  Claim C3.  The test of the hump split compares the current rune with the previous byte
  of the input, read as a rune.  Let \<open>(i, l)\<close> and \<open>(j, u)\<close> be neighbours in the range loop
  over \<open>s\<close>, with \<open>u\<close> an uppercase ASCII letter.
  \<^item> If \<open>l\<close> is a lowercase letter outside ASCII, and the byte before \<open>u\<close> (the last byte of
    the encoding of \<open>l\<close>) is not a lowercase rune, the iteration of \<open>u\<close> does not flush:
    the completed words stay as they are, the accumulator grows by \<open>u\<close>, and \<open>l\<close> and \<open>u\<close>
    end up next to each other in one token of the result.
  \<^item> If \<open>l\<close> is a lowercase ASCII letter, the iteration of \<open>u\<close> flushes: the accumulator,
    which ends with \<open>l\<close>, becomes a completed word, and the next token of the result
    starts with \<open>u\<close>.
\<close>

theorem hump_split_reads_previous_byte:
  assumes adj: "rangeString s = pre @ (i, l) # (j, u) # post"
    and u: "0x41 \<le> u" "u \<le> 0x5A"
  shows "(MaxASCII < l \<and> IsLetter U l \<and> IsLower U l \<and> \<not> IsLower U (of_char (s ! (j - 1))) \<longrightarrow>
            (\<exists>ws c. foldl (splitWords_step U s) ([], []) (pre @ [(i, l)]) = (ws, c @ AppendRune l)
               \<and> foldl (splitWords_step U s) ([], []) (pre @ [(i, l), (j, u)])
                    = (ws, c @ AppendRune l @ AppendRune u)
               \<and> (\<exists>ext more. splitWords U s = ws @ (c @ AppendRune l @ AppendRune u @ ext) # more)))
       \<and> (0x61 \<le> l \<and> l \<le> 0x7A \<longrightarrow>
            (\<exists>ws c. foldl (splitWords_step U s) ([], []) (pre @ [(i, l)]) = (ws, c @ AppendRune l)
               \<and> foldl (splitWords_step U s) ([], []) (pre @ [(i, l), (j, u)])
                    = (ws @ [c @ AppendRune l], AppendRune u)
               \<and> (\<exists>ext more. splitWords U s
                      = ws @ (c @ AppendRune l) # (AppendRune u @ ext) # more)))"
proof -
  obtain ws0 c0 where st0: "foldl (splitWords_step U s) ([], []) pre = (ws0, c0)"
    by (cases "foldl (splitWords_step U s) ([], []) pre")
  have pos: "i < j" "j < length s" and dec: "DecodeRuneInString (drop i s) = (l, j - i)"
    and ilen: "i < length s"
    using rangeString_adjacent [OF adj] by simp_all
  have uL: "IsLetter U u" "IsUpper U u"
    using u properties_ascii_upper [OF u] by (simp_all add: IsLetter_def IsUpper_def MaxLatin1_def)
  have whole: "splitWords U s
      = fst (flush (foldl (splitWords_step U s)
               (foldl (splitWords_step U s) ([], []) (pre @ [(i, l), (j, u)])) post))"
    by (simp add: splitWords_def adj)
  have first: "IsLetter U l \<Longrightarrow>
      \<exists>ws c. foldl (splitWords_step U s) ([], []) (pre @ [(i, l)]) = (ws, c @ AppendRune l)"
    by (auto simp: st0 splitWords_step_def flush_def)
  show ?thesis
  proof (intro conjI impI)
    assume h: "MaxASCII < l \<and> IsLetter U l \<and> IsLower U l \<and> \<not> IsLower U (of_char (s ! (j - 1)))"
    from first h obtain ws c where
      a: "foldl (splitWords_step U s) ([], []) (pre @ [(i, l)]) = (ws, c @ AppendRune l)" by blast
    have "splitWords_step U s (ws, c @ AppendRune l) (j, u) = (ws, (c @ AppendRune l) @ AppendRune u)"
      using h uL by (simp add: splitWords_step_def)
    then have b: "foldl (splitWords_step U s) ([], []) (pre @ [(i, l), (j, u)])
                    = (ws, c @ AppendRune l @ AppendRune u)"
      using a by simp
    have "c @ AppendRune l @ AppendRune u \<noteq> []" using AppendRune_nonempty by simp
    from loop_extends_word [OF this, of U s ws post] obtain ext more where
      "fst (flush (foldl (splitWords_step U s) (ws, c @ AppendRune l @ AppendRune u) post))
         = ws @ ((c @ AppendRune l @ AppendRune u) @ ext) # more" by blast
    then have "splitWords U s = ws @ (c @ AppendRune l @ AppendRune u @ ext) # more"
      unfolding whole b by simp
    with a b show "\<exists>ws c. foldl (splitWords_step U s) ([], []) (pre @ [(i, l)]) = (ws, c @ AppendRune l)
               \<and> foldl (splitWords_step U s) ([], []) (pre @ [(i, l), (j, u)])
                    = (ws, c @ AppendRune l @ AppendRune u)
               \<and> (\<exists>ext more. splitWords U s = ws @ (c @ AppendRune l @ AppendRune u @ ext) # more)"
      by blast
  next
    assume h: "0x61 \<le> l \<and> l \<le> 0x7A"
    then have lL: "IsLetter U l" "IsLower U l"
      using properties_ascii_lower [of l] by (simp_all add: IsLetter_def IsLower_def MaxLatin1_def)
    from first lL obtain ws c where
      a: "foldl (splitWords_step U s) ([], []) (pre @ [(i, l)]) = (ws, c @ AppendRune l)" by blast
    have ne: "drop i s \<noteq> []" using ilen by simp
    from Decode_ascii_rune [OF ne dec] h
    have w: "j - i = 1" and b: "(of_char (hd (drop i s)) :: int) = l" by simp_all
    have "hd (drop i s) = s ! i" using ilen by (simp add: hd_drop_conv_nth)
    moreover have "j - 1 = i" using w pos by simp
    ultimately have prev: "(of_char (s ! (j - 1)) :: int) = l" using b by simp
    have "splitWords_step U s (ws, c @ AppendRune l) (j, u) = (ws @ [c @ AppendRune l], AppendRune u)"
      using lL uL pos prev AppendRune_nonempty [of l] by (simp add: splitWords_step_def flush_def)
    then have b2: "foldl (splitWords_step U s) ([], []) (pre @ [(i, l), (j, u)])
                    = (ws @ [c @ AppendRune l], AppendRune u)"
      using a by simp
    from loop_extends_word [OF AppendRune_nonempty, of U s "ws @ [c @ AppendRune l]" u post]
    obtain ext more where
      "fst (flush (foldl (splitWords_step U s) (ws @ [c @ AppendRune l], AppendRune u) post))
         = (ws @ [c @ AppendRune l]) @ (AppendRune u @ ext) # more" by blast
    then have "splitWords U s = ws @ (c @ AppendRune l) # (AppendRune u @ ext) # more"
      unfolding whole b2 by simp
    with a b2 show "\<exists>ws c. foldl (splitWords_step U s) ([], []) (pre @ [(i, l)]) = (ws, c @ AppendRune l)
               \<and> foldl (splitWords_step U s) ([], []) (pre @ [(i, l), (j, u)])
                    = (ws @ [c @ AppendRune l], AppendRune u)
               \<and> (\<exists>ext more. splitWords U s
                      = ws @ (c @ AppendRune l) # (AppendRune u @ ext) # more)"
      by blast
  qed
qed

theorem hump_split_reads_previous_byte_witness:
  "rangeString [CHR 0xC3, CHR 0xA9, CHR ''A''] = [] @ (0, 0xE9) # (2, 0x41) # []
   \<and> MaxASCII < 0xE9 \<and> IsLetter sample_tables 0xE9 \<and> IsLower sample_tables 0xE9
   \<and> \<not> IsLower sample_tables (of_char ([CHR 0xC3, CHR 0xA9, CHR ''A''] ! (2 - 1)))
   \<and> (\<exists>ws c ext more. splitWords sample_tables [CHR 0xC3, CHR 0xA9, CHR ''A'']
          = ws @ (c @ AppendRune 0xE9 @ AppendRune 0x41 @ ext) # more)
   \<and> splitWords sample_tables [CHR 0xC3, CHR 0xA9, CHR ''A''] = [[CHR 0xC3, CHR 0xA9, CHR ''A'']]
   \<and> rangeString ''myVar'' = [(0, 0x6D)] @ (1, 0x79) # (2, 0x56) # [(3, 0x61), (4, 0x72)]
   \<and> (\<exists>ws c ext more. splitWords sample_tables ''myVar''
          = ws @ (c @ AppendRune 0x79) # (AppendRune 0x56 @ ext) # more)
   \<and> splitWords sample_tables ''myVar'' = [''my'', ''Var'']"
proof -
  have r1: "rangeString [CHR 0xC3, CHR 0xA9, CHR ''A''] = [] @ (0, 0xE9) # (2, 0x41) # []"
    by code_simp
  have u1: "(0x41::int) \<le> 0x41" "(0x41::int) \<le> 0x5A" by simp_all
  have p1: "MaxASCII < 0xE9 \<and> IsLetter sample_tables 0xE9 \<and> IsLower sample_tables 0xE9
            \<and> \<not> IsLower sample_tables (of_char ([CHR 0xC3, CHR 0xA9, CHR ''A''] ! (2 - 1)))"
    by code_simp
  have e1: "\<exists>ws c ext more. splitWords sample_tables [CHR 0xC3, CHR 0xA9, CHR ''A'']
          = ws @ (c @ AppendRune 0xE9 @ AppendRune 0x41 @ ext) # more"
    using hump_split_reads_previous_byte [OF r1 u1, where U = sample_tables] p1 by blast
  have v1: "splitWords sample_tables [CHR 0xC3, CHR 0xA9, CHR ''A''] = [[CHR 0xC3, CHR 0xA9, CHR ''A'']]"
    by code_simp
  have r2: "rangeString ''myVar'' = [(0, 0x6D)] @ (1, 0x79) # (2, 0x56) # [(3, 0x61), (4, 0x72)]"
    by code_simp
  have u2: "(0x41::int) \<le> 0x56" "(0x56::int) \<le> 0x5A" by simp_all
  have p2: "(0x61::int) \<le> 0x79 \<and> (0x79::int) \<le> 0x7A" by simp
  have e2: "\<exists>ws c ext more. splitWords sample_tables ''myVar''
          = ws @ (c @ AppendRune 0x79) # (AppendRune 0x56 @ ext) # more"
    using hump_split_reads_previous_byte [OF r2 u2, where U = sample_tables] p2 by blast
  have v2: "splitWords sample_tables ''myVar'' = [''my'', ''Var'']"
    by code_simp
  from r1 p1 e1 v1 r2 e2 v2 show ?thesis by blast
qed

text \<open>
  The hypothesis on the last byte is needed: the last byte of a letter outside ASCII can be
  \<open>0xB5\<close>, which as a rune is the lowercase micro sign.  So \<open>o\<close> with tilde (\<open>0xC3 0xB5\<close>) before
  \<open>A\<close> does split.
\<close>

lemma hump_split_after_last_byte_B5:
  "splitWords U [CHR 0xC3, CHR 0xB5, CHR ''A''] = [[CHR 0xC3, CHR 0xB5], ''A'']"
  by code_simp

lemma continuation_byte_lower:
  "0x80 \<le> b \<Longrightarrow> b \<le> 0xBF \<Longrightarrow> IsLower U b \<longleftrightarrow> b = 0xB5"
  by (auto simp: IsLower_def MaxLatin1_def properties_def)

section \<open>The case renderer: camel and pascal\<close>

text \<open>Writing a list of runes the way \<open>strings_Map\<close> does: a negative rune is dropped.\<close>

definition write_runes :: "rune list \<Rightarrow> string" where
  "write_runes rs = concat (map (\<lambda>r. if 0 \<le> r then AppendRune r else []) rs)"

text \<open>
  The specification's rendering, in its own words.  \<open>capitalize_first\<close> replaces the first
  code point of a string by its title case and leaves every byte after it as it is;
  \<open>render_camel\<close> lowercases the first token and capitalises the first code point of each
  later lowercased token, \<open>render_pascal\<close> does the latter for every token; both concatenate
  without a separator.
\<close>

definition capitalize_first :: "tables \<Rightarrow> string \<Rightarrow> string" where
  "capitalize_first U w =
    (if w = [] then []
     else write_runes [unicode_ToTitle U (fst (DecodeRuneInString w))]
            @ drop (snd (DecodeRuneInString w)) w)"

definition render_camel :: "tables \<Rightarrow> string list \<Rightarrow> string" where
  "render_camel U tokens =
    (case tokens of
       [] \<Rightarrow> []
     | t # ts \<Rightarrow> strings_ToLower U t
                 @ concat (map (\<lambda>t. capitalize_first U (strings_ToLower U t)) ts))"

definition render_pascal :: "tables \<Rightarrow> string list \<Rightarrow> string" where
  "render_pascal U tokens = concat (map (\<lambda>t. capitalize_first U (strings_ToLower U t)) tokens)"

text \<open>
  A property of the Unicode tables that the renderer relies on: the lower case of a letter
  or number outside ASCII is again a code point, and not one that \<^verbatim>\<open>strings.Title\<close> takes
  for a word separator (white space).  It holds of the Unicode tables; the theorem below
  assumes it of the parameter.
\<close>

definition lower_keeps_words :: "tables \<Rightarrow> bool" where
  "lower_keeps_words U =
    (\<forall>r. MaxASCII < r \<and> valid_rune r \<and> isWordRune U r \<longrightarrow>
           valid_rune (To_LowerCase U r) \<and> \<not> isSeparator U (To_LowerCase U r))"

lemma write_runes_valid: "list_all valid_rune rs \<Longrightarrow> write_runes rs = string_of_runes rs"
  by (induction rs) (simp_all add: write_runes_def string_of_runes_def valid_rune_def)

lemma strings_Map_write: "strings_Map f s = write_runes (map f (runes s))"
  by (simp add: strings_Map_def write_runes_def comp_def)

lemma strings_Title_write: "strings_Title U s = write_runes (Title_runes U 0x20 (runes s))"
  by (simp add: strings_Title_def write_runes_def)

lemma runes_ascii_Cons:
  "(of_char c :: int) < 0x80 \<Longrightarrow> runes (c # cs) = of_char c # runes cs"
  using runes_step [of "c # cs"] by (simp add: Decode_ascii)

lemma ascii_lower_Map:
  "isASCII s \<Longrightarrow>
     map (\<lambda>c. if 0x41 \<le> (of_char c :: int) \<and> (of_char c :: int) \<le> 0x5A
               then char_of ((of_char c :: int) + 0x20) else c) s
       = strings_Map (unicode_ToLower U) s"
proof (induction s)
  case Nil
  show ?case by (simp add: strings_Map_write runes_Nil write_runes_def)
next
  case (Cons c s)
  then have c: "(of_char c :: int) < 0x80" and s: "isASCII s"
    by (simp_all add: isASCII_def RuneSelf_def)
  have c0: "0 \<le> (of_char c :: int)" using byte_range by blast
  have "write_runes [unicode_ToLower U (of_char c)]
          = [if 0x41 \<le> (of_char c :: int) \<and> (of_char c :: int) \<le> 0x5A
             then char_of ((of_char c :: int) + 0x20) else c]"
    using c c0 by (auto simp: write_runes_def unicode_ToLower_def MaxASCII_def AppendRune_def)
  then show ?case
    using Cons.IH [OF s] by (simp add: strings_Map_write runes_ascii_Cons [OF c] write_runes_def)
qed

lemma strings_ToLower_Map: "strings_ToLower U s = strings_Map (unicode_ToLower U) s"
  by (simp add: strings_ToLower_def ascii_lower_Map)


text \<open>A token is the encoding of a non-empty list of word runes.\<close>

definition word_runes :: "tables \<Rightarrow> rune list \<Rightarrow> bool" where
  "word_runes U rs = list_all (\<lambda>r. valid_rune r \<and> isWordRune U r) rs"

definition is_token :: "tables \<Rightarrow> string \<Rightarrow> bool" where
  "is_token U w = (\<exists>rs. rs \<noteq> [] \<and> word_runes U rs \<and> w = string_of_runes rs)"

lemma is_token_nonempty: "is_token U w \<Longrightarrow> w \<noteq> []"
  using AppendRune_nonempty by (cases w) (auto simp: is_token_def string_of_runes_def neq_Nil_conv)

lemma is_token_append:
  assumes "cur = [] \<or> is_token U cur" "valid_rune r" "isWordRune U r"
  shows "is_token U (cur @ AppendRune r)"
proof (cases "cur = []")
  case True
  have "word_runes U [r]" using assms by (simp add: word_runes_def)
  moreover have "AppendRune r = string_of_runes [r]" by (simp add: string_of_runes_def)
  ultimately show ?thesis unfolding is_token_def True by (intro exI [of _ "[r]"]) simp
next
  case False
  with assms obtain rs where rs: "rs \<noteq> []" "word_runes U rs" "cur = string_of_runes rs"
    by (auto simp: is_token_def)
  have "word_runes U (rs @ [r])" using rs assms by (simp add: word_runes_def)
  moreover have "cur @ AppendRune r = string_of_runes (rs @ [r])"
    using rs by (simp add: string_of_runes_def)
  ultimately show ?thesis unfolding is_token_def by (intro exI [of _ "rs @ [r]"]) simp
qed

definition tokens_inv :: "tables \<Rightarrow> split_state \<Rightarrow> bool" where
  "tokens_inv U st = (list_all (is_token U) (fst st) \<and> (snd st = [] \<or> is_token U (snd st)))"

lemma tokens_inv_flush: "tokens_inv U st \<Longrightarrow> tokens_inv U (flush st)"
  by (cases st) (auto simp: tokens_inv_def flush_def)

lemma tokens_inv_step:
  assumes "tokens_inv U st" "valid_rune r"
  shows "tokens_inv U (splitWords_step U s st (i, r))"
proof (cases "isWordRune U r")
  case False
  then show ?thesis using tokens_inv_flush [OF assms(1)]
    by (simp add: splitWords_step_def isWordRune_def)
next
  case True
  define st' where "st' = (if 0 < i \<and> IsUpper U r \<and> IsLower U (of_char (s ! (i - 1))) then flush st else st)"
  have inv': "tokens_inv U st'" using assms(1) tokens_inv_flush [OF assms(1)] by (simp add: st'_def)
  have "splitWords_step U s st (i, r) = (fst st', snd st' @ AppendRune r)"
    using True by (simp add: splitWords_step_def isWordRune_def st'_def split_beta)
  moreover have "is_token U (snd st' @ AppendRune r)"
    using inv' is_token_append [OF _ assms(2) True] by (simp add: tokens_inv_def)
  ultimately show ?thesis using inv' by (simp add: tokens_inv_def)
qed

lemma tokens_inv_loop:
  "tokens_inv U st \<Longrightarrow> list_all (\<lambda>ir. valid_rune (snd ir)) irs \<Longrightarrow>
     tokens_inv U (foldl (splitWords_step U s) st irs)"
proof (induction irs arbitrary: st)
  case Nil
  then show ?case by simp
next
  case (Cons ir irs)
  obtain i r where ir: "ir = (i, r)" by (cases ir)
  from Cons.prems have "valid_rune r" and rest: "list_all (\<lambda>ir. valid_rune (snd ir)) irs"
    by (simp_all add: ir)
  from tokens_inv_step [OF Cons.prems(1) this(1)]
  have "tokens_inv U (splitWords_step U s st (i, r))" .
  from Cons.IH [OF this rest] show ?case by (simp add: ir)
qed

lemma splitWords_tokens: "list_all (is_token U) (splitWords U s)"
proof -
  have "list_all (\<lambda>ir. valid_rune (snd ir)) (rangeString s)"
    using runes_valid [of s] by (simp add: runes_def list_all_iff)
  from tokens_inv_loop [OF _ this, of U "([], [])" s]
  have "tokens_inv U (foldl (splitWords_step U s) ([], []) (rangeString s))"
    by (simp add: tokens_inv_def)
  from tokens_inv_flush [OF this] show ?thesis
    by (simp add: splitWords_def tokens_inv_def)
qed


lemma ascii_word_rune:
  assumes "0 \<le> r" "r \<le> 0x7F" "isWordRune U r"
  shows "(0x30 \<le> r \<and> r \<le> 0x39) \<or> (0x41 \<le> r \<and> r \<le> 0x5A) \<or> (0x61 \<le> r \<and> r \<le> 0x7A)"
proof -
  have "properties r \<in> {pLu, pLl, pLo} \<or> properties r = pN"
    using assms by (simp add: isWordRune_def IsLetter_def IsNumber_def MaxLatin1_def)
  then show ?thesis
    using assms(1,2) by (auto simp: properties_def split: if_splits)
qed

lemma lower_word_rune:
  assumes "lower_keeps_words U" "valid_rune r" "isWordRune U r"
  shows "valid_rune (unicode_ToLower U r) \<and> \<not> isSeparator U (unicode_ToLower U r)"
proof (cases "r \<le> MaxASCII")
  case True
  then have r: "0 \<le> r" "r \<le> 0x7F" using assms(2) by (simp_all add: valid_rune_def MaxASCII_def)
  from ascii_word_rune [OF r assms(3)] r show ?thesis
    by (auto simp: unicode_ToLower_def MaxASCII_def valid_rune_def MaxRune_def isSeparator_def)
next
  case False
  then have "unicode_ToLower U r = To_LowerCase U r" by (simp add: unicode_ToLower_def)
  with assms False show ?thesis by (simp add: lower_keeps_words_def)
qed

lemma lower_token:
  assumes "lower_keeps_words U" "word_runes U rs"
  shows "strings_ToLower U (string_of_runes rs) = string_of_runes (map (unicode_ToLower U) rs)"
    and "list_all (\<lambda>r. valid_rune r \<and> \<not> isSeparator U r) (map (unicode_ToLower U) rs)"
proof -
  have v: "list_all valid_rune rs" using assms(2) by (simp add: word_runes_def list_all_iff)
  show l: "list_all (\<lambda>r. valid_rune r \<and> \<not> isSeparator U r) (map (unicode_ToLower U) rs)"
    using assms(2) lower_word_rune [OF assms(1)] by (auto simp: word_runes_def list_all_iff)
  then have v': "list_all valid_rune (map (unicode_ToLower U) rs)" by (simp add: list_all_iff)
  have "strings_ToLower U (string_of_runes rs) = write_runes (map (unicode_ToLower U) rs)"
    by (simp add: strings_ToLower_Map strings_Map_write runes_string_of_runes [OF v])
  also have "\<dots> = string_of_runes (map (unicode_ToLower U) rs)"
    by (rule write_runes_valid [OF v'])
  finally show "strings_ToLower U (string_of_runes rs) = string_of_runes (map (unicode_ToLower U) rs)" .
qed

lemma Title_runes_no_separator:
  "\<not> isSeparator U prev \<Longrightarrow> list_all (\<lambda>r. \<not> isSeparator U r) rs \<Longrightarrow> Title_runes U prev rs = rs"
  by (induction rs arbitrary: prev) simp_all

lemma Title_capitalize_first:
  assumes "ls \<noteq> []" "list_all (\<lambda>r. valid_rune r \<and> \<not> isSeparator U r) ls"
  shows "strings_Title U (string_of_runes ls) = capitalize_first U (string_of_runes ls)"
proof -
  from assms(1) obtain l0 lt where ls: "ls = l0 # lt" by (cases ls) auto
  have v: "list_all valid_rune ls" using assms(2) by (simp add: list_all_iff)
  have l0: "valid_rune l0" "\<not> isSeparator U l0" and lt: "list_all (\<lambda>r. \<not> isSeparator U r) lt"
    and vt: "list_all valid_rune lt"
    using assms(2) by (simp_all add: ls list_all_iff)
  have sp: "isSeparator U 0x20" by (simp add: isSeparator_def)
  have x: "string_of_runes ls = AppendRune l0 @ string_of_runes lt"
    by (simp add: ls string_of_runes_def)
  have "strings_Title U (string_of_runes ls) = write_runes (Title_runes U 0x20 ls)"
    by (simp add: strings_Title_write runes_string_of_runes [OF v])
  also have "\<dots> = write_runes (unicode_ToTitle U l0 # lt)"
    using sp Title_runes_no_separator [OF l0(2) lt] by (simp add: ls)
  also have "\<dots> = write_runes [unicode_ToTitle U l0] @ string_of_runes lt"
    using write_runes_valid [OF vt] by (simp add: write_runes_def)
  also have "\<dots> = capitalize_first U (string_of_runes ls)"
    using AppendRune_nonempty [of l0]
    by (simp add: capitalize_first_def x Decode_AppendRune [OF l0(1)])
  finally show ?thesis .
qed

lemma token_Title:
  assumes "lower_keeps_words U" "is_token U w"
  shows "strings_Title U (strings_ToLower U w) = capitalize_first U (strings_ToLower U w)"
proof -
  from assms(2) obtain rs where rs: "rs \<noteq> []" "word_runes U rs" "w = string_of_runes rs"
    by (auto simp: is_token_def)
  have ne: "map (unicode_ToLower U) rs \<noteq> []" using rs(1) by simp
  show ?thesis
    unfolding rs(3) lower_token(1) [OF assms(1) rs(2)]
    by (rule Title_capitalize_first [OF ne lower_token(2) [OF assms(1) rs(2)]])
qed

lemma foldl_append_concat:
  "foldl (\<lambda>result word. result @ f word) init ws = init @ concat (map f ws)"
  by (induction ws arbitrary: init) simp_all

text \<open>
  Claim C2.  Provided the tables have the property above, \<open>toCamelCase\<close> lowercases the
  first token and, for each later token, lowercases it and replaces only its first code
  point by its title case; \<open>toPascalCase\<close> does that for every token; the results are
  concatenated without a separator.  No code point but the first of a token is changed
  after lowercasing, so a token that starts with digits, as \<open>123abc\<close>, keeps all its letters
  lowercase.
\<close>

theorem camel_pascal_capitalize_first_rune:
  assumes "lower_keeps_words U"
  shows "toCamelCase U s = render_camel U (splitWords U s)
       \<and> toPascalCase U s = render_pascal U (splitWords U s)
       \<and> toPascalCase U ''123abc'' = ''123abc''
       \<and> toCamelCase U ''x 123ABC'' = ''x123abc''"
proof -
  have t: "\<And>w. w \<in> set (splitWords U s) \<Longrightarrow>
      strings_Title U (strings_ToLower U w) = capitalize_first U (strings_ToLower U w)"
    using splitWords_tokens [of U s] token_Title [OF assms] by (simp add: list_all_iff)
  then have p: "map (\<lambda>w. strings_Title U (strings_ToLower U w)) (splitWords U s)
              = map (\<lambda>w. capitalize_first U (strings_ToLower U w)) (splitWords U s)"
    by (intro map_cong) simp_all
  have pascal: "toPascalCase U s = render_pascal U (splitWords U s)"
    by (simp add: toPascalCase_def render_pascal_def foldl_append_concat p)
  have camel: "toCamelCase U s = render_camel U (splitWords U s)"
  proof (cases "splitWords U s")
    case Nil
    then show ?thesis by (simp add: toCamelCase_def render_camel_def)
  next
    case (Cons w ws)
    have e: "map (\<lambda>w. strings_Title U (strings_ToLower U w)) ws
              = map (\<lambda>w. capitalize_first U (strings_ToLower U w)) ws"
      using t by (intro map_cong) (simp_all add: Cons)
    show ?thesis by (simp add: toCamelCase_def render_camel_def Cons foldl_append_concat e)
  qed
  have "toPascalCase U ''123abc'' = ''123abc''" by code_simp
  moreover have "toCamelCase U ''x 123ABC'' = ''x123abc''" by code_simp
  ultimately show ?thesis using pascal camel by simp
qed


lemma sample_tables_sel:
  "Letter sample_tables = (\<lambda>r. sample_upper r \<or> sample_lower r)"
  "Number sample_tables = (\<lambda>r. False)"
  "Digit sample_tables = (\<lambda>r. False)"
  "White_Space sample_tables = (\<lambda>r. r = 0x2028 \<or> r = 0x2029 \<or> r = 0x3000)"
  "To_LowerCase sample_tables = sample_to_lower"
  by (simp_all add: sample_tables_def)

lemma sample_lower_keeps_words: "lower_keeps_words sample_tables"
  unfolding lower_keeps_words_def
proof (intro allI impI)
  fix r
  assume a: "MaxASCII < r \<and> valid_rune r \<and> isWordRune sample_tables r"
  then have r: "0x7F < r" "r \<le> 0x10FFFF" and w: "isWordRune sample_tables r"
    by (simp_all add: MaxASCII_def valid_rune_def MaxRune_def)
  show "valid_rune (To_LowerCase sample_tables r) \<and> \<not> isSeparator sample_tables (To_LowerCase sample_tables r)"
  proof (cases "r \<le> 0xFF")
    case True
    from w True r have p: "properties r \<in> {pLu, pLl, pLo} \<or> properties r = pN"
      by (simp add: isWordRune_def IsLetter_def IsNumber_def MaxLatin1_def)
    show ?thesis
    proof (cases "0xC0 \<le> r \<and> r \<le> 0xDE \<and> r \<noteq> 0xD7")
      case c: True
      then have l: "sample_to_lower r = r + 0x20" by (simp add: sample_to_lower_def)
      have "properties (r + 0x20) = pLl" using c by (auto simp: properties_def)
      then show ?thesis using c
        by (simp add: sample_tables_sel l valid_rune_def MaxRune_def isSeparator_def IsLetter_def
            MaxLatin1_def)
    next
      case c: False
      then have l: "sample_to_lower r = r" using True by (auto simp: sample_to_lower_def sample_upper_def)
      have "\<not> IsSpace sample_tables r" using p r True
        by (auto simp: IsSpace_def MaxLatin1_def properties_def split: if_splits)
      then show ?thesis using p r True
        by (auto simp: sample_tables_sel l valid_rune_def MaxRune_def isSeparator_def IsLetter_def
            MaxLatin1_def)
    qed
  next
    case False
    with w have ul: "sample_upper r \<or> sample_lower r"
      by (simp add: isWordRune_def IsLetter_def IsNumber_def MaxLatin1_def sample_tables_sel)
    then have r2: "0x391 \<le> r" "r \<le> 0x44F" by (auto simp: sample_upper_def sample_lower_def)
    have "sample_lower (sample_to_lower r)" "0xFF < sample_to_lower r" "sample_to_lower r \<le> 0x44F"
      using ul r2 by (auto simp: sample_to_lower_def sample_upper_def sample_lower_def)
    then show ?thesis
      by (simp add: sample_tables_sel valid_rune_def MaxRune_def isSeparator_def IsLetter_def
          MaxLatin1_def)
  qed
qed

theorem camel_pascal_capitalize_first_rune_witness:
  "lower_keeps_words sample_tables
   \<and> toCamelCase sample_tables
      [CHR 0xC3, CHR 0x89, CHR ''c'', CHR ''o'', CHR ''l'', CHR ''e'', CHR '' '', CHR ''D'', CHR ''E'',
       CHR ''-'', CHR 0xCE, CHR 0xA9, CHR 0xCE, CHR 0x9C]
     = render_camel sample_tables (splitWords sample_tables
      [CHR 0xC3, CHR 0x89, CHR ''c'', CHR ''o'', CHR ''l'', CHR ''e'', CHR '' '', CHR ''D'', CHR ''E'',
       CHR ''-'', CHR 0xCE, CHR 0xA9, CHR 0xCE, CHR 0x9C])
   \<and> toPascalCase sample_tables
      [CHR 0xC3, CHR 0x89, CHR ''c'', CHR ''o'', CHR ''l'', CHR ''e'', CHR '' '', CHR ''D'', CHR ''E'',
       CHR ''-'', CHR 0xCE, CHR 0xA9, CHR 0xCE, CHR 0x9C]
     = render_pascal sample_tables (splitWords sample_tables
      [CHR 0xC3, CHR 0x89, CHR ''c'', CHR ''o'', CHR ''l'', CHR ''e'', CHR '' '', CHR ''D'', CHR ''E'',
       CHR ''-'', CHR 0xCE, CHR 0xA9, CHR 0xCE, CHR 0x9C])
   \<and> toCamelCase sample_tables
      [CHR 0xC3, CHR 0x89, CHR ''c'', CHR ''o'', CHR ''l'', CHR ''e'', CHR '' '', CHR ''D'', CHR ''E'',
       CHR ''-'', CHR 0xCE, CHR 0xA9, CHR 0xCE, CHR 0x9C]
     = [CHR 0xC3, CHR 0xA9, CHR ''c'', CHR ''o'', CHR ''l'', CHR ''e'', CHR ''D'', CHR ''e'',
        CHR 0xCE, CHR 0xA9, CHR 0xCE, CHR 0xBC]
   \<and> toPascalCase sample_tables
      [CHR 0xC3, CHR 0x89, CHR ''c'', CHR ''o'', CHR ''l'', CHR ''e'', CHR '' '', CHR ''D'', CHR ''E'',
       CHR ''-'', CHR 0xCE, CHR 0xA9, CHR 0xCE, CHR 0x9C]
     = [CHR 0xC3, CHR 0x89, CHR ''c'', CHR ''o'', CHR ''l'', CHR ''e'', CHR ''D'', CHR ''e'',
        CHR 0xCE, CHR 0xA9, CHR 0xCE, CHR 0xBC]"
proof -
  have v1: "toCamelCase sample_tables
      [CHR 0xC3, CHR 0x89, CHR ''c'', CHR ''o'', CHR ''l'', CHR ''e'', CHR '' '', CHR ''D'', CHR ''E'',
       CHR ''-'', CHR 0xCE, CHR 0xA9, CHR 0xCE, CHR 0x9C]
     = [CHR 0xC3, CHR 0xA9, CHR ''c'', CHR ''o'', CHR ''l'', CHR ''e'', CHR ''D'', CHR ''e'',
        CHR 0xCE, CHR 0xA9, CHR 0xCE, CHR 0xBC]"
    by code_simp
  have v2: "toPascalCase sample_tables
      [CHR 0xC3, CHR 0x89, CHR ''c'', CHR ''o'', CHR ''l'', CHR ''e'', CHR '' '', CHR ''D'', CHR ''E'',
       CHR ''-'', CHR 0xCE, CHR 0xA9, CHR 0xCE, CHR 0x9C]
     = [CHR 0xC3, CHR 0x89, CHR ''c'', CHR ''o'', CHR ''l'', CHR ''e'', CHR ''D'', CHR ''e'',
        CHR 0xCE, CHR 0xA9, CHR 0xCE, CHR 0xBC]"
    by code_simp
  show ?thesis
    using sample_lower_keeps_words v1 v2
      camel_pascal_capitalize_first_rune [OF sample_lower_keeps_words, of
        "[CHR 0xC3, CHR 0x89, CHR ''c'', CHR ''o'', CHR ''l'', CHR ''e'', CHR '' '', CHR ''D'', CHR ''E'',
       CHR ''-'', CHR 0xCE, CHR 0xA9, CHR 0xCE, CHR 0x9C]"]
    by simp
qed

section \<open>WordCount\<close>

text \<open>
  \<^verbatim>\<open>utf8.RuneCountInString\<close>, the number of runes the range loop sees.  A string has a code
  point outside ASCII when one of its UTF-8 sequences is longer than one byte (a byte
  that belongs to no valid encoding is a sequence of its own, of length one).
\<close>

definition RuneCountInString :: "string \<Rightarrow> nat" where
  "RuneCountInString s = length (runes s)"

definition has_non_ASCII_code_point :: "string \<Rightarrow> bool" where
  "has_non_ASCII_code_point s = list_ex (\<lambda>chunk. 1 < length chunk) (explode s)"

lemma Index_single_None: "Index s [c] = None \<Longrightarrow> c \<notin> set s"
  by (induction s) (auto simp: HasPrefix_def split: if_splits)

lemma Index_single_Some:
  "Index s [c] = Some j \<Longrightarrow> j < length s \<and> s ! j = c \<and> c \<notin> set (take j s)"
proof (induction s arbitrary: j)
  case Nil
  then show ?case by simp
next
  case (Cons x xs)
  show ?case
  proof (cases "x = c")
    case True
    with Cons.prems show ?thesis by (simp add: HasPrefix_def)
  next
    case False
    with Cons.prems obtain j' where j': "Index xs [c] = Some j'" "j = Suc j'"
      by (auto simp: HasPrefix_def)
    from Cons.IH [OF j'(1)] False j'(2) show ?thesis by simp
  qed
qed

lemma replace_all_single: "replace_all s [c] [] = filter (\<lambda>x. x \<noteq> c) s"
proof (induction s "[c]" "[] :: string" rule: replace_all.induct)
  case (1 s)
  show ?case
  proof (cases "Index s [c]")
    case None
    from Index_single_None [OF this] have "filter (\<lambda>x. x \<noteq> c) s = s"
      by (auto simp: filter_id_conv)
    with None show ?thesis by (simp add: replace_all.simps [of s])
  next
    case (Some j)
    from Index_single_Some [OF Some]
    have j: "j < length s" "s ! j = c" "c \<notin> set (take j s)" by simp_all
    have "filter (\<lambda>x. x \<noteq> c) s
            = filter (\<lambda>x. x \<noteq> c) (take j s @ s ! j # drop (Suc j) s)"
      by (rule arg_cong [OF id_take_nth_drop [OF j(1)]])
    also have "\<dots> = filter (\<lambda>x. x \<noteq> c) (take j s) @ filter (\<lambda>x. x \<noteq> c) (drop (Suc j) s)"
      using j(2) by simp
    also have "filter (\<lambda>x. x \<noteq> c) (take j s) = take j s"
      using j(3) by (auto simp: filter_id_conv)
    finally have f: "filter (\<lambda>x. x \<noteq> c) s = take j s @ filter (\<lambda>x. x \<noteq> c) (drop (Suc j) s)"
      by simp
    from "1.hyps" [OF Some] have "replace_all (drop (j + length [c]) s) [c] []
        = filter (\<lambda>x. x \<noteq> c) (drop (j + length [c]) s)" by simp
    then show ?thesis using Some f by (simp add: replace_all.simps [of s])
  qed
qed

lemma ReplaceAll_single: "ReplaceAll s [c] [] = filter (\<lambda>x. x \<noteq> c) s"
  by (simp add: ReplaceAll_def replace_all_single)

lemma explode_step:
  "s \<noteq> [] \<Longrightarrow> explode s =
     take (snd (DecodeRuneInString s)) s # explode (drop (snd (DecodeRuneInString s)) s)"
  by (subst explode.simps) simp

lemma rune_count_le: "length (runes s) \<le> length s"
proof (induction s rule: explode.induct)
  case (1 s)
  show ?case
  proof (cases "s = []")
    case True
    then show ?thesis by (simp add: runes_Nil)
  next
    case False
    from DecodeRuneInString_width [OF False] "1.IH" [OF False]
    show ?thesis by (simp add: runes_step [OF False]; linarith)
  qed
qed

lemma rune_count_less:
  "has_non_ASCII_code_point s \<Longrightarrow> length (runes s) < length s"
proof (induction s rule: explode.induct)
  case (1 s)
  show ?case
  proof (cases "s = []")
    case True
    with "1.prems" show ?thesis by (simp add: has_non_ASCII_code_point_def explode.simps)
  next
    case False
    define w where "w = snd (DecodeRuneInString s)"
    have w: "1 \<le> w" "w \<le> length s" using DecodeRuneInString_width [OF False] by (simp_all add: w_def)
    have len: "length (runes s) = Suc (length (runes (drop w s)))"
      by (simp add: runes_step [OF False] w_def)
    from "1.prems" have "1 < w \<or> has_non_ASCII_code_point (drop w s)"
      using w by (simp add: has_non_ASCII_code_point_def explode_step [OF False] w_def [symmetric])
    then show ?thesis
    proof
      assume "1 < w"
      with rune_count_le [of "drop w s"] w len show ?thesis by simp
    next
      assume "has_non_ASCII_code_point (drop w s)"
      from "1.IH" [OF False, folded w_def, OF this] w len show ?thesis by simp
    qed
  qed
qed

lemma rune_count_ascii: "isASCII s \<Longrightarrow> length (runes s) = length s"
proof (induction s)
  case Nil
  show ?case by (simp add: runes_Nil)
next
  case (Cons c s)
  then have c: "(of_char c :: int) < 0x80" and s: "isASCII s"
    by (simp_all add: isASCII_def RuneSelf_def)
  show ?case using Cons.IH [OF s] by (simp add: runes_ascii_Cons [OF c])
qed

lemma WordCount_lookup:
  "WordCount U text0 ''characters'' = Some (int (length (TrimSpace U text0)))"
  "WordCount U text0 ''charactersNoSpaces''
     = Some (int (length (ReplaceAll (ReplaceAll (TrimSpace U text0) '' '' []) ''\<newline>'' [])))"
  by (simp_all add: WordCount_def Let_def)

text \<open>
  Claim C10.  The field \<open>characters\<close> of \<open>WordCount\<close> is the number of bytes of the trimmed
  input, and \<open>charactersNoSpaces\<close> the number of its bytes other than space and line feed.
  So \<open>characters\<close> is strictly greater than the number of code points whenever the trimmed
  input has a code point outside ASCII, and equal to it when the trimmed input is ASCII.
\<close>

theorem WordCount_characters_are_bytes:
  "(\<exists>n. WordCount U text ''characters'' = Some n
         \<and> n = int (length (TrimSpace U text))
         \<and> (has_non_ASCII_code_point (TrimSpace U text) \<longrightarrow>
                int (RuneCountInString (TrimSpace U text)) < n)
         \<and> (isASCII (TrimSpace U text) \<longrightarrow> int (RuneCountInString (TrimSpace U text)) = n))
   \<and> WordCount U text ''charactersNoSpaces''
       = Some (int (length (filter (\<lambda>c. c \<noteq> CHR '' '' \<and> c \<noteq> CHR ''\<newline>'') (TrimSpace U text))))"
proof -
  have "filter (\<lambda>c. c \<noteq> CHR ''\<newline>'') (filter (\<lambda>c. c \<noteq> CHR '' '') (TrimSpace U text))
      = filter (\<lambda>c. c \<noteq> CHR '' '' \<and> c \<noteq> CHR ''\<newline>'') (TrimSpace U text)"
    by simp
  then show ?thesis
    using rune_count_less [of "TrimSpace U text"] rune_count_ascii [of "TrimSpace U text"]
    by (simp add: WordCount_lookup ReplaceAll_single RuneCountInString_def)
qed

theorem WordCount_characters_are_bytes_witness:
  "has_non_ASCII_code_point
     (TrimSpace sample_tables (''  h'' @ [CHR 0xC3, CHR 0xA9] @ ''llo w'' @ [CHR 0xC3, CHR 0xB6] @ ''rld \<newline>''))
   \<and> WordCount sample_tables
        (''  h'' @ [CHR 0xC3, CHR 0xA9] @ ''llo w'' @ [CHR 0xC3, CHR 0xB6] @ ''rld \<newline>'') ''characters''
      = Some 13
   \<and> WordCount sample_tables
        (''  h'' @ [CHR 0xC3, CHR 0xA9] @ ''llo w'' @ [CHR 0xC3, CHR 0xB6] @ ''rld \<newline>'')
        ''charactersNoSpaces''
      = Some 12
   \<and> RuneCountInString
        (TrimSpace sample_tables (''  h'' @ [CHR 0xC3, CHR 0xA9] @ ''llo w'' @ [CHR 0xC3, CHR 0xB6] @ ''rld \<newline>''))
      = 11
   \<and> isASCII (TrimSpace sample_tables ''Hello world.\<newline>\<newline>Second paragraph here.'')
   \<and> WordCount sample_tables ''Hello world.\<newline>\<newline>Second paragraph here.'' ''characters'' = Some 36
   \<and> WordCount sample_tables ''Hello world.\<newline>\<newline>Second paragraph here.'' ''charactersNoSpaces''
      = Some 31
   \<and> RuneCountInString (TrimSpace sample_tables ''Hello world.\<newline>\<newline>Second paragraph here.'') = 36"
proof -
  have a: "has_non_ASCII_code_point
     (TrimSpace sample_tables (''  h'' @ [CHR 0xC3, CHR 0xA9] @ ''llo w'' @ [CHR 0xC3, CHR 0xB6] @ ''rld \<newline>''))"
    by code_simp
  have b: "length (TrimSpace sample_tables
      (''  h'' @ [CHR 0xC3, CHR 0xA9] @ ''llo w'' @ [CHR 0xC3, CHR 0xB6] @ ''rld \<newline>'')) = 13"
    by code_simp
  have c: "RuneCountInString
        (TrimSpace sample_tables (''  h'' @ [CHR 0xC3, CHR 0xA9] @ ''llo w'' @ [CHR 0xC3, CHR 0xB6] @ ''rld \<newline>''))
      = 11"
    by code_simp
  have d: "length (filter (\<lambda>c. c \<noteq> CHR '' '' \<and> c \<noteq> CHR ''\<newline>'') (TrimSpace sample_tables
      (''  h'' @ [CHR 0xC3, CHR 0xA9] @ ''llo w'' @ [CHR 0xC3, CHR 0xB6] @ ''rld \<newline>''))) = 12"
    by code_simp
  have e: "isASCII (TrimSpace sample_tables ''Hello world.\<newline>\<newline>Second paragraph here.'')"
    by code_simp
  have f: "length (TrimSpace sample_tables ''Hello world.\<newline>\<newline>Second paragraph here.'') = 36"
    by code_simp
  have g: "length (filter (\<lambda>c. c \<noteq> CHR '' '' \<and> c \<noteq> CHR ''\<newline>'')
      (TrimSpace sample_tables ''Hello world.\<newline>\<newline>Second paragraph here.'')) = 31"
    by code_simp
  show ?thesis
    using a c e
      WordCount_characters_are_bytes [of sample_tables
        "''  h'' @ [CHR 0xC3, CHR 0xA9] @ ''llo w'' @ [CHR 0xC3, CHR 0xB6] @ ''rld \<newline>''"]
      WordCount_characters_are_bytes [of sample_tables
        "''Hello world.\<newline>\<newline>Second paragraph here.''"]
    by (simp only: b d f g) simp
qed

text \<open>The word count scenario of the specification.\<close>

lemma WordCount_scenario:
  "map (WordCount sample_tables ''Hello world.\<newline>\<newline>Second paragraph here.'')
     [''words'', ''lines'', ''paragraphs'', ''characters'', ''charactersNoSpaces'']
   = [Some 5, Some 3, Some 2, Some 36, Some 31]"
  by code_simp

text \<open>
  A byte that belongs to no valid encoding is not a code point, although the range loop
  reports a rune for it; on the one-byte string \<open>0xFF\<close> the two counts agree.
\<close>

lemma WordCount_invalid_byte:
  "WordCount sample_tables [CHR 0xFF] ''characters'' = Some 1
   \<and> RuneCountInString (TrimSpace sample_tables [CHR 0xFF]) = 1
   \<and> \<not> has_non_ASCII_code_point (TrimSpace sample_tables [CHR 0xFF])"
  by code_simp

end
